theory Spec2Isabelle
  imports Main
begin

section \<open>Memory model\<close>

text \<open>
  The list is intrusive: the nodes are caller-owned objects that point at each other, and
  every operation of \<^verbatim>\<open>intrusive_list.h\<close> is a short sequence of pointer writes. A node is
  identified by its address; the store maps every address to the two pointers held there.
  Each assignment of the source is one update of the store, in the order of the source, so
  that what a later statement reads is what the earlier ones wrote, aliasing included.
  The field \<^verbatim>\<open>next\<close> is called \<open>nxt\<close> here.
\<close>

type_synonym addr = nat

record list_element =
  nxt :: addr
  prev :: addr

type_synonym heap = "addr \<Rightarrow> list_element"

text \<open>\<^verbatim>\<open>a->next = v\<close> and \<^verbatim>\<open>a->prev = v\<close>.\<close>

definition set_next :: "heap \<Rightarrow> addr \<Rightarrow> addr \<Rightarrow> heap" where
  "set_next h a v = h(a := (h a)\<lparr>nxt := v\<rparr>)"

definition set_prev :: "heap \<Rightarrow> addr \<Rightarrow> addr \<Rightarrow> heap" where
  "set_prev h a v = h(a := (h a)\<lparr>prev := v\<rparr>)"

text \<open>A store in which every node is in the state its constructor leaves it in.\<close>

definition fresh_heap :: heap where
  "fresh_heap = (\<lambda>a. \<lparr>nxt = a, prev = a\<rparr>)"

section \<open>Link node\<close>

text \<open>\<^verbatim>\<open>list_element() { prev = next = this; }\<close>\<close>

definition elem_init :: "heap \<Rightarrow> addr \<Rightarrow> heap" where
  "elem_init h this =
    (let h = set_next h this this;
         h = set_prev h this (nxt (h this))
     in h)"

text \<open>
  \<^verbatim>\<open>link(prev, next)\<close>: four writes, the node's own two pointers first, then the
  neighbours'.
\<close>

definition link :: "heap \<Rightarrow> addr \<Rightarrow> addr \<Rightarrow> addr \<Rightarrow> heap" where
  "link h this p n =
    (let h = set_next h this n;
         h = set_prev h this p;
         h = set_prev h n this;
         h = set_next h p this
     in h)"

text \<open>
  \<^verbatim>\<open>unlink()\<close>: the second statement reads \<^verbatim>\<open>this->prev\<close> and \<^verbatim>\<open>this->next\<close> from
  the store the first statement has already written.
\<close>

definition unlink :: "heap \<Rightarrow> addr \<Rightarrow> heap" where
  "unlink h this =
    (let h = set_prev h (nxt (h this)) (prev (h this));
         h = set_next h (prev (h this)) (nxt (h this));
         h = set_next h this this;
         h = set_prev h this (nxt (h this))
     in h)"

section \<open>Iterator\<close>

text \<open>An iterator is the address of the node it stands on; \<^verbatim>\<open>++\<close> and \<^verbatim>\<open>--\<close> read the store.\<close>

definition iter_inc :: "heap \<Rightarrow> addr \<Rightarrow> addr" where
  "iter_inc h iter = nxt (h iter)"

definition iter_dec :: "heap \<Rightarrow> addr \<Rightarrow> addr" where
  "iter_dec h iter = prev (h iter)"

section \<open>List container\<close>

text \<open>
  A list object is its one member \<^verbatim>\<open>pointer\<close>, the sentinel node; \<open>this\<close> below is the
  address of that node. Every member function takes \<open>this\<close>, also the three that never
  use it (\<^verbatim>\<open>insert\<close>, \<^verbatim>\<open>erase\<close>, \<^verbatim>\<open>splice\<close>).
\<close>

definition clear :: "heap \<Rightarrow> addr \<Rightarrow> heap" where
  "clear h this =
    (let h = set_next h this this;
         h = set_prev h this (nxt (h this))
     in h)"

text \<open>\<^verbatim>\<open>list()\<close>: the member's own constructor runs, then the body.\<close>

definition list_init :: "heap \<Rightarrow> addr \<Rightarrow> heap" where
  "list_init h this =
    (let h = elem_init h this;
         h = set_next h this this;
         h = set_prev h this (nxt (h this))
     in h)"

definition empty :: "heap \<Rightarrow> addr \<Rightarrow> bool" where
  "empty h this = (prev (h this) = this)"

text \<open>\<^verbatim>\<open>operator=(list &&other)\<close>\<close>

definition move_assign :: "heap \<Rightarrow> addr \<Rightarrow> addr \<Rightarrow> heap" where
  "move_assign h this other =
    (let h = clear h this;
         h = (if \<not> empty h other then link h this (prev (h other)) (nxt (h other)) else h);
         h = clear h other
     in h)"

text \<open>\<^verbatim>\<open>list(list &&other)\<close>: the member's own constructor, then \<^verbatim>\<open>operator=\<close>.\<close>

definition list_move :: "heap \<Rightarrow> addr \<Rightarrow> addr \<Rightarrow> heap" where
  "list_move h this other = move_assign (elem_init h this) this other"

definition push_back :: "heap \<Rightarrow> addr \<Rightarrow> addr \<Rightarrow> heap" where
  "push_back h this elem = link h elem (prev (h this)) this"

definition pop_back :: "heap \<Rightarrow> addr \<Rightarrow> heap" where
  "pop_back h this = unlink h (prev (h this))"

definition back_l :: "heap \<Rightarrow> addr \<Rightarrow> addr" where
  "back_l h this = prev (h this)"

definition push_front :: "heap \<Rightarrow> addr \<Rightarrow> addr \<Rightarrow> heap" where
  "push_front h this elem = link h elem this (nxt (h this))"

definition pop_front :: "heap \<Rightarrow> addr \<Rightarrow> heap" where
  "pop_front h this = unlink h (nxt (h this))"

definition front :: "heap \<Rightarrow> addr \<Rightarrow> addr" where
  "front h this = nxt (h this)"

definition begin_l :: "heap \<Rightarrow> addr \<Rightarrow> addr" where
  "begin_l h this = nxt (h this)"

definition end_l :: "heap \<Rightarrow> addr \<Rightarrow> addr" where
  "end_l h this = this"

definition insert_l :: "heap \<Rightarrow> addr \<Rightarrow> addr \<Rightarrow> addr \<Rightarrow> heap \<times> addr" where
  "insert_l h this pos elem = (link h elem (prev (h pos)) pos, elem)"

text \<open>\<^verbatim>\<open>erase\<close> steps the iterator first and unlinks the predecessor of where it lands.\<close>

definition erase :: "heap \<Rightarrow> addr \<Rightarrow> addr \<Rightarrow> heap \<times> addr" where
  "erase h this pos =
    (let pos = iter_inc h pos
     in (unlink h (prev (h pos)), pos))"

text \<open>
  \<^verbatim>\<open>splice(pos, list &, first, last)\<close>: the second parameter has no name in the source;
  it is \<open>other\<close> here and occurs nowhere on the right.
\<close>

definition splice_l :: "heap \<Rightarrow> addr \<Rightarrow> addr \<Rightarrow> addr \<Rightarrow> addr \<Rightarrow> addr \<Rightarrow> heap" where
  "splice_l h this pos other first lst =
    (if first = lst then h
     else
       let h = set_next h (prev (h first)) lst;
           swap_last = prev (h lst);
           h = set_prev h lst (prev (h first));
           h = set_next h (prev (h pos)) first;
           h = set_prev h first (prev (h pos));
           h = set_next h swap_last pos;
           h = set_prev h pos swap_last
       in h)"

section \<open>Traversal from begin to end\<close>

text \<open>
  The client loop \<^verbatim>\<open>for (it = begin(); it != end(); ++it)\<close>, collecting the nodes visited.
  On a corrupted ring the loop need not end, so it runs on fuel: \<open>None\<close> is "the sentinel
  was not reached within \<open>k\<close> steps".
\<close>

fun traverse :: "nat \<Rightarrow> heap \<Rightarrow> addr \<Rightarrow> addr \<Rightarrow> addr list option" where
  "traverse 0 h it e = (if it = e then Some [] else None)"
| "traverse (Suc k) h it e =
    (if it = e then Some [] else map_option ((#) it) (traverse k h (iter_inc h it) e))"

definition to_list :: "nat \<Rightarrow> heap \<Rightarrow> addr \<Rightarrow> addr list option" where
  "to_list k h this = traverse k h (begin_l h this) (end_l h this)"

section \<open>Well-formed rings\<close>

text \<open>
  \<open>links h a b\<close>: \<open>b\<close> follows \<open>a\<close> and both pointers of that edge agree. \<open>seg\<close> asks this
  of every two neighbours of a sequence, \<open>cyc\<close> closes the sequence into a cycle of distinct
  nodes. \<open>ring h l xs\<close>: the list with sentinel \<open>l\<close> holds the elements \<open>xs\<close>, in this
  order from \<^verbatim>\<open>begin()\<close>; the sequence \<open>xs @ [l]\<close> is the list's iterator positions.
\<close>

definition links :: "heap \<Rightarrow> addr \<Rightarrow> addr \<Rightarrow> bool" where
  "links h a b = (nxt (h a) = b \<and> prev (h b) = a)"

fun seg :: "heap \<Rightarrow> addr list \<Rightarrow> bool" where
  "seg h [] = True"
| "seg h [a] = True"
| "seg h (a # b # cs) = (links h a b \<and> seg h (b # cs))"

definition cyc :: "heap \<Rightarrow> addr list \<Rightarrow> bool" where
  "cyc h cs = (cs \<noteq> [] \<and> distinct cs \<and> seg h cs \<and> links h (last cs) (hd cs))"

definition ring :: "heap \<Rightarrow> addr \<Rightarrow> addr list \<Rightarrow> bool" where
  "ring h l xs = cyc h (xs @ [l])"

section \<open>Positions and ranges\<close>

text \<open>
  A list with elements \<open>xs\<close> and sentinel \<open>l\<close> has the iterator positions \<open>xs @ [l]\<close>:
  position \<open>i\<close> is \<^verbatim>\<open>begin() + i\<close>, and position \<open>length xs\<close> is \<^verbatim>\<open>end()\<close>. The
  half-open range of positions \<open>[j, k)\<close> holds the elements \<open>range_of j k xs\<close>.
\<close>

definition range_of :: "nat \<Rightarrow> nat \<Rightarrow> addr list \<Rightarrow> addr list" where
  "range_of j k ys = take (k - j) (drop j ys)"

section \<open>Sequences of valid operations\<close>

text \<open>
  To speak of "any sequence of valid operations" the lists that have been constructed are
  recorded beside the store: \<open>ls l = Some xs\<close> says that a list with sentinel \<open>l\<close> was
  constructed and should now hold \<open>xs\<close>. The record is only used to say which calls are
  valid (the caller's contract of each operation); the store is changed by the operations
  themselves. \<open>owned ls\<close> are the nodes that are in some list, sentinels included.
  A call is valid when: a constructed list lives at an address no list uses; an inserted
  element is in no list; a pop is on a non-empty list; a position is a position of the list
  the call is made on; an erased position is not \<^verbatim>\<open>end()\<close>; a spliced range is a range of
  elements of the source list, and the destination position is outside it.
\<close>

type_synonym lists = "addr \<Rightarrow> addr list option"

definition nodes :: "lists \<Rightarrow> addr \<Rightarrow> addr set" where
  "nodes ls l = (case ls l of None \<Rightarrow> {} | Some xs \<Rightarrow> set (l # xs))"

definition owned :: "lists \<Rightarrow> addr set" where
  "owned ls = (\<Union>l. nodes ls l)"

inductive step :: "heap \<times> lists \<Rightarrow> heap \<times> lists \<Rightarrow> bool" where
  construct:
    "l \<notin> owned ls \<Longrightarrow> step (h, ls) (list_init h l, ls(l \<mapsto> []))"
| push_back:
    "ls l = Some xs \<Longrightarrow> e \<notin> owned ls \<Longrightarrow>
     step (h, ls) (push_back h l e, ls(l \<mapsto> xs @ [e]))"
| push_front:
    "ls l = Some xs \<Longrightarrow> e \<notin> owned ls \<Longrightarrow>
     step (h, ls) (push_front h l e, ls(l \<mapsto> e # xs))"
| pop_back:
    "ls l = Some xs \<Longrightarrow> xs \<noteq> [] \<Longrightarrow>
     step (h, ls) (pop_back h l, ls(l \<mapsto> butlast xs))"
| pop_front:
    "ls l = Some xs \<Longrightarrow> xs \<noteq> [] \<Longrightarrow>
     step (h, ls) (pop_front h l, ls(l \<mapsto> tl xs))"
| insert:
    "ls l = Some xs \<Longrightarrow> i \<le> length xs \<Longrightarrow> e \<notin> owned ls \<Longrightarrow>
     step (h, ls) (fst (insert_l h l ((xs @ [l]) ! i) e), ls(l \<mapsto> take i xs @ e # drop i xs))"
| erase:
    "ls l = Some xs \<Longrightarrow> i < length xs \<Longrightarrow>
     step (h, ls) (fst (erase h l (xs ! i)), ls(l \<mapsto> take i xs @ drop (Suc i) xs))"
| splice_other:
    "ls l = Some xs \<Longrightarrow> ls l2 = Some ys \<Longrightarrow> l \<noteq> l2 \<Longrightarrow>
     i \<le> length xs \<Longrightarrow> j \<le> k \<Longrightarrow> k \<le> length ys \<Longrightarrow>
     step (h, ls)
       (splice_l h l ((xs @ [l]) ! i) l2 ((ys @ [l2]) ! j) ((ys @ [l2]) ! k),
        ls(l \<mapsto> take i xs @ range_of j k ys @ drop i xs, l2 \<mapsto> take j ys @ drop k ys))"
| splice_same:
    "ls l = Some xs \<Longrightarrow> i \<le> length xs \<Longrightarrow> j \<le> k \<Longrightarrow> k \<le> length xs \<Longrightarrow>
     i < j \<or> k \<le> i \<Longrightarrow>
     step (h, ls)
       (splice_l h l ((xs @ [l]) ! i) l ((xs @ [l]) ! j) ((xs @ [l]) ! k),
        ls(l \<mapsto> (if i < j then take i xs @ range_of j k xs @ drop i (take j xs) @ drop k xs
                   else take j xs @ drop k (take i xs) @ range_of j k xs @ drop i xs)))"
| move_assign:
    "ls l = Some xs \<Longrightarrow> ls l2 = Some ys \<Longrightarrow>
     step (h, ls) (move_assign h l l2, (ls(l \<mapsto> ys))(l2 \<mapsto> []))"
| clear:
    "ls l = Some xs \<Longrightarrow> step (h, ls) (clear h l, ls(l \<mapsto> []))"

inductive reachable :: "heap \<times> lists \<Rightarrow> bool" where
  init: "reachable (h, Map.empty)"
| next_state: "reachable s \<Longrightarrow> step s s' \<Longrightarrow> reachable s'"

definition rings_ok :: "heap \<Rightarrow> lists \<Rightarrow> bool" where
  "rings_ok h ls =
    ((\<forall>l xs. ls l = Some xs \<longrightarrow> ring h l xs) \<and>
     (\<forall>l l'. l \<noteq> l' \<longrightarrow> nodes ls l \<inter> nodes ls l' = {}))"

section \<open>A worked example\<close>

text \<open>
  Two lists, \<open>A\<close> with sentinel at address 10 and \<open>B\<close> with sentinel at 20, built by the
  operations themselves from fresh nodes: \<open>A = [1, 2, 3, 4]\<close> and \<open>B = [5, 6]\<close>, an element
  being named by its address.
\<close>

definition example_heap :: heap where
  "example_heap =
    push_back (push_back
      (push_back (push_back (push_back (push_back
        (list_init (list_init fresh_heap 10) 20) 10 1) 10 2) 10 3) 10 4) 20 5) 20 6"

section \<open>Reading the store after a write\<close>

lemma nxt_set_next [simp]: "nxt (set_next h a v b) = (if b = a then v else nxt (h b))"
  by (simp add: set_next_def)

lemma prev_set_next [simp]: "prev (set_next h a v b) = prev (h b)"
  by (simp add: set_next_def)

lemma nxt_set_prev [simp]: "nxt (set_prev h a v b) = nxt (h b)"
  by (simp add: set_prev_def)

lemma prev_set_prev [simp]: "prev (set_prev h a v b) = (if b = a then v else prev (h b))"
  by (simp add: set_prev_def)

lemma heap_eqI: "(\<And>a. nxt (h a) = nxt (h' a) \<and> prev (h a) = prev (h' a)) \<Longrightarrow> h = (h' :: heap)"
  by (rule ext) simp

lemma nxt_link: "nxt (link h e p n a) = (if a = p then e else if a = e then n else nxt (h a))"
  by (simp add: link_def Let_def)

lemma prev_link: "prev (link h e p n a) = (if a = n then e else if a = e then p else prev (h a))"
  by (simp add: link_def Let_def)

lemma nxt_unlink:
  "nxt (unlink h t a) = (if a = t then t else if a = prev (h t) then nxt (h t) else nxt (h a))"
  by (simp add: unlink_def Let_def)

lemma prev_unlink:
  "prev (unlink h t a) = (if a = t then t else if a = nxt (h t) then prev (h t) else prev (h a))"
  by (simp add: unlink_def Let_def)

lemma link_frame: "a \<noteq> e \<Longrightarrow> a \<noteq> p \<Longrightarrow> a \<noteq> n \<Longrightarrow> link h e p n a = h a"
  by (simp add: link_def Let_def set_next_def set_prev_def)

lemma unlink_frame: "a \<noteq> t \<Longrightarrow> a \<noteq> prev (h t) \<Longrightarrow> a \<noteq> nxt (h t) \<Longrightarrow> unlink h t a = h a"
  by (simp add: unlink_def Let_def set_next_def set_prev_def)

lemma unlink_self: "nxt (h n) = n \<Longrightarrow> prev (h n) = n \<Longrightarrow> unlink h n = h"
  by (rule heap_eqI) (simp add: unlink_def Let_def)

lemma unlink_unlinked: "unlink h n n = \<lparr>nxt = n, prev = n\<rparr>"
  by (simp add: unlink_def Let_def set_next_def set_prev_def)

lemma clear_node: "clear h l l = \<lparr>nxt = l, prev = l\<rparr>"
  by (simp add: clear_def Let_def set_next_def set_prev_def)

lemma clear_frame: "a \<noteq> l \<Longrightarrow> clear h l a = h a"
  by (simp add: clear_def Let_def set_next_def set_prev_def)

lemma list_init_eq: "list_init h l = h(l := \<lparr>nxt = l, prev = l\<rparr>)"
  by (rule ext) (simp add: list_init_def elem_init_def Let_def set_next_def set_prev_def)

lemma ring_empty: "ring h l [] = (nxt (h l) = l \<and> prev (h l) = l)"
  by (simp add: ring_def cyc_def links_def)

lemma nxt_splice:
  "first \<noteq> lst \<Longrightarrow> nxt (splice_l h this pos other first lst a) =
    (if a = prev (h lst) then pos
     else if a = (if pos = lst then prev (h first) else prev (h pos)) then first
     else if a = prev (h first) then lst
     else nxt (h a))"
  by (simp add: splice_l_def Let_def)

lemma prev_splice:
  "first \<noteq> lst \<Longrightarrow> prev (splice_l h this pos other first lst a) =
    (if a = pos then prev (h lst)
     else if a = first then (if pos = lst then prev (h first) else prev (h pos))
     else if a = lst then prev (h first)
     else prev (h a))"
  by (simp add: splice_l_def Let_def)

lemma nxt_list_init [simp]: "nxt (list_init h l a) = (if a = l then l else nxt (h a))"
  by (simp add: list_init_eq)

lemma prev_list_init [simp]: "prev (list_init h l a) = (if a = l then l else prev (h a))"
  by (simp add: list_init_eq)

lemma nxt_push_back: "nxt (push_back h l e a) = (if a = prev (h l) then e else if a = e then l else nxt (h a))"
  by (simp add: push_back_def nxt_link)

lemma prev_push_back: "prev (push_back h l e a) = (if a = l then e else if a = e then prev (h l) else prev (h a))"
  by (simp add: push_back_def prev_link)

lemma elem_init_frame: "a \<noteq> l \<Longrightarrow> elem_init h l a = h a"
  by (simp add: elem_init_def Let_def set_next_def set_prev_def)

lemma move_assign_self: "move_assign h l l = clear (clear h l) l"
proof -
  have "empty (clear h l) l" by (simp add: empty_def clear_node)
  then show ?thesis by (simp add: move_assign_def Let_def)
qed

section \<open>Claims settled by unfolding the operations\<close>

text \<open>
  C8 (unlink idempotence). Unlinking a node whose two pointers hold its own address changes
  nothing in the store, and the node is still self-referencing; and for any node in any
  store, unlinking it a second time gives the store the first unlink gave.
\<close>

theorem unlink_idempotent:
  "(h n = \<lparr>nxt = n, prev = n\<rparr> \<longrightarrow> unlink h n = h)
   \<and> unlink h n n = \<lparr>nxt = n, prev = n\<rparr>
   \<and> unlink (unlink h n) n = unlink h n"
proof -
  have "unlink (unlink h n) n = unlink h n"
    by (rule unlink_self) (simp_all add: unlink_unlinked)
  moreover have "h n = \<lparr>nxt = n, prev = n\<rparr> \<longrightarrow> unlink h n = h"
    by (auto intro: unlink_self)
  ultimately show ?thesis by (simp add: unlink_unlinked)
qed

theorem unlink_idempotent_witness:
  "fresh_heap 3 = \<lparr>nxt = 3, prev = 3\<rparr> \<and> unlink fresh_heap 3 = fresh_heap
   \<and> unlink (unlink fresh_heap 3) 3 = unlink fresh_heap 3"
  using unlink_idempotent [of fresh_heap 3] by (simp add: fresh_heap_def)

text \<open>
  C9 (splice does not depend on its source-list argument). Two calls of splice that differ
  only in the list passed as second parameter give the same store.
\<close>

theorem splice_ignores_source_list:
  "splice_l h this pos other1 first lst = splice_l h this pos other2 first lst"
  by (simp add: splice_l_def)

text \<open>
  C10 (self-move-assignment empties the list). For any store and any list \<open>l\<close>, after
  \<^verbatim>\<open>l = std::move(l)\<close> the sentinel is self-referencing, \<^verbatim>\<open>empty()\<close> holds, the list is
  the well-formed empty ring, and a traversal from \<^verbatim>\<open>begin()\<close> visits no element.
\<close>

theorem self_move_assign_empties:
  "move_assign h l l l = \<lparr>nxt = l, prev = l\<rparr>
   \<and> empty (move_assign h l l) l
   \<and> ring (move_assign h l l) l []
   \<and> to_list k (move_assign h l l) l = Some []"
proof -
  have e: "empty (clear h l) l" by (simp add: empty_def clear_node)
  have m: "move_assign h l l = clear (clear h l) l"
    using e by (simp add: move_assign_def Let_def)
  have n: "move_assign h l l l = \<lparr>nxt = l, prev = l\<rparr>" by (simp add: m clear_node)
  have "to_list k (move_assign h l l) l = Some []"
    by (cases k) (simp_all add: to_list_def begin_l_def end_l_def n)
  then show ?thesis by (simp add: n empty_def ring_empty)
qed

text \<open>
  C4 (pop on an empty list), as the code has it. On a well-formed empty list the node that
  \<^verbatim>\<open>pop_back()\<close> and \<^verbatim>\<open>pop_front()\<close> unlink is the sentinel itself; the sentinel's
  neighbours are the sentinel, so the unlink writes back what was there: the store is
  unchanged and the list is still the well-formed empty ring.
\<close>

theorem pop_on_empty_is_noop:
  "h l = \<lparr>nxt = l, prev = l\<rparr> \<Longrightarrow>
     pop_back h l = unlink h l \<and> pop_front h l = unlink h l
     \<and> pop_back h l = h \<and> pop_front h l = h
     \<and> ring (pop_back h l) l [] \<and> ring (pop_front h l) l []"
  by (simp add: pop_back_def pop_front_def unlink_self ring_empty)

theorem pop_on_empty_is_noop_witness:
  "list_init fresh_heap 0 0 = \<lparr>nxt = 0, prev = 0\<rparr>
   \<and> pop_back (list_init fresh_heap 0) 0 = list_init fresh_heap 0
   \<and> pop_front (list_init fresh_heap 0) 0 = list_init fresh_heap 0"
proof -
  have "list_init fresh_heap 0 0 = \<lparr>nxt = 0, prev = 0\<rparr>" by (simp add: list_init_eq)
  from pop_on_empty_is_noop [of "list_init fresh_heap 0" 0] this show ?thesis by blast
qed

text \<open>
  The claim as the specification states it (after the call the list is no longer a
  well-formed empty ring) fails on the freshly constructed list at address 0.
\<close>

theorem pop_on_empty_counterexample:
  "ring (pop_back (list_init fresh_heap 0) 0) 0 []
   \<and> ring (pop_front (list_init fresh_heap 0) 0) 0 []
   \<and> empty (pop_back (list_init fresh_heap 0) 0) 0
   \<and> empty (pop_front (list_init fresh_heap 0) 0) 0"
proof -
  have n: "nxt (list_init fresh_heap 0 0) = 0" and p: "prev (list_init fresh_heap 0 0) = 0"
    by (simp_all add: list_init_eq)
  have "pop_back (list_init fresh_heap 0) 0 = list_init fresh_heap 0"
    "pop_front (list_init fresh_heap 0) 0 = list_init fresh_heap 0"
    by (simp_all add: pop_back_def pop_front_def n p unlink_self)
  then show ?thesis by (simp add: ring_empty empty_def n p)
qed

text \<open>
  C5 (empty round trip). A freshly constructed list is empty. After \<^verbatim>\<open>push_back(x)\<close> of an
  element \<open>x\<close> (a node other than the sentinel) the list is not empty: it is the well-formed
  ring of \<open>x\<close> alone, the traversal visits exactly \<open>x\<close>, and \<^verbatim>\<open>front()\<close> and \<^verbatim>\<open>back()\<close>
  are \<open>x\<close>. After the \<^verbatim>\<open>pop_back()\<close> that follows the list is empty again (the well-formed
  empty ring, with an empty traversal), \<open>x\<close>'s two pointers hold \<open>x\<close>'s own address, and no
  other node of the store has changed.
\<close>

theorem empty_round_trip:
  "empty (list_init h l) l
   \<and> (x \<noteq> l \<longrightarrow>
        \<not> empty (push_back (list_init h l) l x) l
        \<and> ring (push_back (list_init h l) l x) l [x]
        \<and> to_list (Suc k) (push_back (list_init h l) l x) l = Some [x]
        \<and> front (push_back (list_init h l) l x) l = x
        \<and> back_l (push_back (list_init h l) l x) l = x)
   \<and> empty (pop_back (push_back (list_init h l) l x) l) l
   \<and> ring (pop_back (push_back (list_init h l) l x) l) l []
   \<and> to_list k (pop_back (push_back (list_init h l) l x) l) l = Some []
   \<and> pop_back (push_back (list_init h l) l x) l x = \<lparr>nxt = x, prev = x\<rparr>
   \<and> pop_back (push_back (list_init h l) l x) l = (list_init h l)(x := \<lparr>nxt = x, prev = x\<rparr>)"
proof -
  let ?p = "push_back (list_init h l) l x"
  let ?h = "pop_back ?p l"
  have eq: "?h = (list_init h l)(x := \<lparr>nxt = x, prev = x\<rparr>)"
    by (rule heap_eqI)
      (simp add: pop_back_def push_back_def link_def unlink_def list_init_def elem_init_def Let_def)
  have e0: "empty (list_init h l) l" by (simp add: empty_def list_init_eq)
  have after: "nxt (?h l) = l" "prev (?h l) = l" "?h x = \<lparr>nxt = x, prev = x\<rparr>"
    unfolding eq by (simp_all add: list_init_eq)
  have t0: "to_list k ?h l = Some []"
    by (cases k) (simp_all add: to_list_def begin_l_def end_l_def after)
  have mid: "x \<noteq> l \<longrightarrow> \<not> empty ?p l \<and> ring ?p l [x] \<and> to_list (Suc k) ?p l = Some [x]
      \<and> front ?p l = x \<and> back_l ?p l = x"
  proof
    assume ne: "x \<noteq> l"
    then have f: "nxt (?p l) = x" "prev (?p l) = x" "nxt (?p x) = l" "prev (?p x) = l"
      by (simp_all add: nxt_push_back prev_push_back)
    have "traverse k ?p l l = Some []" by (cases k) simp_all
    with ne f have "to_list (Suc k) ?p l = Some [x]"
      by (simp add: to_list_def begin_l_def end_l_def iter_inc_def)
    moreover from ne f have "ring ?p l [x]" by (simp add: ring_def cyc_def links_def)
    moreover from ne f have "\<not> empty ?p l" by (simp add: empty_def)
    ultimately show "\<not> empty ?p l \<and> ring ?p l [x] \<and> to_list (Suc k) ?p l = Some [x]
      \<and> front ?p l = x \<and> back_l ?p l = x"
      using f by (simp add: front_def back_l_def)
  qed
  from e0 mid t0 after eq show ?thesis by (simp add: empty_def ring_empty)
qed

theorem empty_round_trip_witness:
  "(1 :: addr) \<noteq> 0
   \<and> empty (list_init fresh_heap 0) 0
   \<and> \<not> empty (push_back (list_init fresh_heap 0) 0 1) 0
   \<and> to_list 1 (push_back (list_init fresh_heap 0) 0 1) 0 = Some [1]
   \<and> empty (pop_back (push_back (list_init fresh_heap 0) 0 1) 0) 0
   \<and> to_list 1 (pop_back (push_back (list_init fresh_heap 0) 0 1) 0) 0 = Some []
   \<and> pop_back (push_back (list_init fresh_heap 0) 0 1) 0 1 = \<lparr>nxt = 1, prev = 1\<rparr>"
proof -
  have ne: "(1 :: addr) \<noteq> 0" by simp
  have s: "Suc 0 = 1" by simp
  from empty_round_trip[of fresh_heap 0 1 0] empty_round_trip[of fresh_heap 0 1 1] ne
  show ?thesis unfolding s by blast
qed

section \<open>Segments and cycles\<close>

lemma seg_Cons: "seg h (a # cs) = (seg h cs \<and> (cs \<noteq> [] \<longrightarrow> links h a (hd cs)))"
  by (cases cs) auto

lemma seg_append:
  "seg h (xs @ ys) = (seg h xs \<and> seg h ys \<and> (xs \<noteq> [] \<and> ys \<noteq> [] \<longrightarrow> links h (last xs) (hd ys)))"
proof (induction xs)
  case Nil
  show ?case by simp
next
  case (Cons a xs)
  show ?case
    by (cases xs) (use Cons in \<open>auto simp: seg_Cons\<close>)
qed

lemma cyc_rotate: "cyc h (xs @ ys) = cyc h (ys @ xs)"
  by (cases "xs = []"; cases "ys = []") (auto simp: cyc_def seg_append)

lemma seg_frame:
  assumes "\<And>a. a \<in> set (butlast cs) \<Longrightarrow> nxt (h' a) = nxt (h a)"
    and "\<And>a. a \<in> set (tl cs) \<Longrightarrow> prev (h' a) = prev (h a)"
  shows "seg h' cs = seg h cs"
  using assms
proof (induction cs rule: seg.induct)
  case (3 h a b cs)
  then show ?case by (auto simp: links_def)
qed simp_all

lemma cyc_frame:
  assumes "\<And>a. a \<in> set cs \<Longrightarrow> h' a = h a"
  shows "cyc h' cs = cyc h cs"
proof -
  have "seg h' cs = seg h cs"
  proof (rule seg_frame)
    fix a assume "a \<in> set (butlast cs)"
    then show "nxt (h' a) = nxt (h a)" by (simp add: assms in_set_butlastD)
  next
    fix a assume "a \<in> set (tl cs)"
    then have "a \<in> set cs" by (cases cs) auto
    then show "prev (h' a) = prev (h a)" by (simp add: assms)
  qed
  moreover have "cs \<noteq> [] \<Longrightarrow> links h' (last cs) (hd cs) = links h (last cs) (hd cs)"
    by (simp add: links_def assms)
  ultimately show ?thesis by (auto simp: cyc_def)
qed

lemma distinct_last_butlast: "distinct cs \<Longrightarrow> cs \<noteq> [] \<Longrightarrow> last cs \<notin> set (butlast cs)"
  by (metis append_butlast_last_id distinct_append not_distinct_conv_prefix)

lemma distinct_hd_tl: "distinct cs \<Longrightarrow> cs \<noteq> [] \<Longrightarrow> hd cs \<notin> set (tl cs)"
  by (cases cs) auto

lemma cyc_prev_hd: "cyc h cs \<Longrightarrow> prev (h (hd cs)) = last cs"
  by (simp add: cyc_def links_def)

lemma cyc_nxt_last: "cyc h cs \<Longrightarrow> nxt (h (last cs)) = hd cs"
  by (simp add: cyc_def links_def)

lemma cyc_neighbours:
  assumes "cyc h cs" and "n \<in> set cs"
  shows "nxt (h n) \<in> set cs" "prev (h (nxt (h n))) = n" "prev (h n) \<in> set cs" "nxt (h (prev (h n))) = n"
proof -
  from assms(2) obtain A B where cs: "cs = A @ n # B" by (auto simp: in_set_conv_decomp)
  with assms(1) have c1: "cyc h (n # B @ A)" using cyc_rotate[of h A "n # B"] by simp
  then have c2: "cyc h (B @ A @ [n])" using cyc_rotate[of h "[n]" "B @ A"] by simp
  from cyc_nxt_last[OF c2] have nx: "nxt (h n) = hd (B @ A @ [n])" by simp
  have "hd (B @ A @ [n]) \<in> set (B @ A @ [n])" by (rule hd_in_set) simp
  then show "nxt (h n) \<in> set cs" by (auto simp: nx cs)
  from cyc_prev_hd[OF c2] show "prev (h (nxt (h n))) = n" by (simp add: nx)
  from cyc_prev_hd[OF c1] have pr: "prev (h n) = last (n # B @ A)" by simp
  have "last (n # B @ A) \<in> set (n # B @ A)" by (rule last_in_set) simp
  then show "prev (h n) \<in> set cs" by (auto simp: pr cs)
  from cyc_nxt_last[OF c1] show "nxt (h (prev (h n))) = n" by (simp add: pr)
qed

lemma cyc_nxt_nth:
  assumes "cyc h cs" and "i < length cs"
  shows "nxt (h (cs ! i)) = cs ! (Suc i mod length cs)"
proof (cases "Suc i < length cs")
  case True
  then have "cs = take i cs @ cs ! i # cs ! Suc i # drop (Suc (Suc i)) cs"
    by (metis Cons_nth_drop_Suc Suc_lessD id_take_nth_drop)
  with assms(1) have "seg h (take i cs @ cs ! i # cs ! Suc i # drop (Suc (Suc i)) cs)"
    by (simp add: cyc_def)
  then have "links h (cs ! i) (cs ! Suc i)" by (simp add: seg_append)
  with True show ?thesis by (simp add: links_def)
next
  case False
  with assms(2) have i: "Suc i = length cs" by simp
  then have "cs ! i = last cs" using assms(2) by (metis diff_Suc_1 last_conv_nth less_nat_zero_code list.size(3))
  moreover have "cs ! 0 = hd cs" using assms(2) by (cases cs) auto
  ultimately show ?thesis using cyc_nxt_last[OF assms(1)] i by simp
qed

lemma cyc_funpow:
  assumes "cyc h cs" and "i < length cs"
  shows "(iter_inc h ^^ k) (cs ! i) = cs ! ((i + k) mod length cs)"
proof (induction k)
  case 0
  from assms(2) show ?case by simp
next
  case (Suc k)
  have "0 < length cs" using assms(2) by auto
  then have "(i + k) mod length cs < length cs" by simp
  from cyc_nxt_nth[OF assms(1) this] Suc show ?case
    by (simp add: iter_inc_def mod_Suc_eq)
qed

lemma cyc_circular:
  assumes "cyc h cs" and "n \<in> set cs"
  shows "(iter_inc h ^^ length cs) n = n"
proof -
  from assms(2) obtain i where "i < length cs" "cs ! i = n" by (auto simp: in_set_conv_nth)
  with cyc_funpow[OF assms(1) this(1), of "length cs"] show ?thesis by simp
qed

section \<open>Linking and unlinking a node of a cycle\<close>

lemma link_cyc:
  assumes "cyc h cs" and "e \<notin> set cs"
  shows "cyc (link h e (last cs) (hd cs)) (e # cs)"
proof -
  let ?h = "link h e (last cs) (hd cs)"
  from assms have ne: "cs \<noteq> []" and d: "distinct cs" and s: "seg h cs"
    by (simp_all add: cyc_def)
  have "seg ?h cs = seg h cs"
  proof (rule seg_frame)
    fix a assume a: "a \<in> set (butlast cs)"
    with d ne have "a \<noteq> last cs" using distinct_last_butlast by blast
    moreover from a assms(2) have "a \<noteq> e" by (auto dest: in_set_butlastD)
    ultimately show "nxt (?h a) = nxt (h a)" by (simp add: nxt_link)
  next
    fix a assume a: "a \<in> set (tl cs)"
    with d ne have "a \<noteq> hd cs" using distinct_hd_tl by blast
    moreover from a assms(2) ne have "a \<noteq> e" by (auto dest: list.set_sel(2))
    ultimately show "prev (?h a) = prev (h a)" by (simp add: prev_link)
  qed
  moreover have "links ?h e (hd cs)" "links ?h (last cs) e"
    using assms(2) ne by (auto simp: links_def nxt_link prev_link)
  ultimately show ?thesis
    using ne d s assms(2) by (simp add: cyc_def seg_Cons)
qed

lemma unlink_cyc:
  assumes "cyc h (n # cs)" and "cs \<noteq> []"
  shows "cyc (unlink h n) cs"
proof -
  let ?h = "unlink h n"
  from assms have d: "distinct cs" "n \<notin> set cs" and s: "seg h cs"
    and nx: "nxt (h n) = hd cs" and pr: "prev (h n) = last cs"
    by (auto simp: cyc_def seg_Cons links_def)
  have "seg ?h cs = seg h cs"
  proof (rule seg_frame)
    fix a assume a: "a \<in> set (butlast cs)"
    with d assms(2) have "a \<noteq> last cs" using distinct_last_butlast by blast
    moreover from a d have "a \<noteq> n" by (auto dest: in_set_butlastD)
    ultimately show "nxt (?h a) = nxt (h a)" by (simp add: nxt_unlink pr)
  next
    fix a assume a: "a \<in> set (tl cs)"
    with d assms(2) have "a \<noteq> hd cs" using distinct_hd_tl by blast
    moreover from a d assms(2) have "a \<noteq> n" by (auto dest: list.set_sel(2))
    ultimately show "prev (?h a) = prev (h a)" by (simp add: prev_unlink nx)
  qed
  moreover have "links ?h (last cs) (hd cs)"
    using d assms(2) by (auto simp: links_def nxt_unlink prev_unlink nx pr)
  ultimately show ?thesis
    using d s assms(2) by (simp add: cyc_def)
qed

lemma link_replace:
  assumes "cyc h (l # cs)" and "cs \<noteq> []" and "l' \<notin> set cs"
  shows "cyc (link h l' (last cs) (hd cs)) (l' # cs)"
proof -
  let ?h = "link h l' (last cs) (hd cs)"
  from assms have d: "distinct cs" and s: "seg h cs"
    by (auto simp: cyc_def seg_Cons)
  have "seg ?h cs = seg h cs"
  proof (rule seg_frame)
    fix a assume a: "a \<in> set (butlast cs)"
    with d assms(2) have "a \<noteq> last cs" using distinct_last_butlast by blast
    moreover from a assms(3) have "a \<noteq> l'" by (auto dest: in_set_butlastD)
    ultimately show "nxt (?h a) = nxt (h a)" by (simp add: nxt_link)
  next
    fix a assume a: "a \<in> set (tl cs)"
    with d assms(2) have "a \<noteq> hd cs" using distinct_hd_tl by blast
    moreover from a assms(3) assms(2) have "a \<noteq> l'" by (auto dest: list.set_sel(2))
    ultimately show "prev (?h a) = prev (h a)" by (simp add: prev_link)
  qed
  moreover have "links ?h l' (hd cs)" "links ?h (last cs) l'"
    using assms(3) assms(2) by (auto simp: links_def nxt_link prev_link)
  ultimately show ?thesis
    using d s assms(2,3) by (simp add: cyc_def seg_Cons)
qed

section \<open>The list operations on a well-formed ring\<close>

lemma ring_nxt: "ring h l xs \<Longrightarrow> nxt (h l) = hd (xs @ [l])"
  using cyc_nxt_last[of h "xs @ [l]"] by (simp add: ring_def)

lemma ring_prev: "ring h l xs \<Longrightarrow> prev (h l) = last (l # xs)"
  using cyc_prev_hd[of h "l # xs"] cyc_rotate[of h xs "[l]"] by (simp add: ring_def)

lemma ring_pos_prev:
  assumes "ring h l xs" and "xs @ [l] = A @ pos # B"
  shows "prev (h pos) = last (l # A)"
proof -
  from assms have "cyc h (pos # B @ A)"
    using cyc_rotate[of h A "pos # B"] by (simp add: ring_def)
  from cyc_prev_hd[OF this] have "prev (h pos) = last (pos # B @ A)" by simp
  moreover from assms(2) have "last (pos # B) = l"
    by (metis last_appendR last_snoc list.distinct(1))
  ultimately show ?thesis by (cases A) (auto simp: last_append)
qed

lemma ring_pos_nxt:
  assumes "ring h l xs" and "xs = A @ pos # B"
  shows "nxt (h pos) = hd (B @ [l])"
proof -
  from assms have "cyc h (B @ [l] @ A @ [pos])"
    using cyc_rotate[of h "A @ [pos]" "B @ [l]"] by (simp add: ring_def)
  from cyc_nxt_last[OF this] show ?thesis by (simp add: hd_append)
qed

lemma push_back_ring:
  assumes "ring h l xs" and "e \<notin> set (l # xs)"
  shows "ring (push_back h l e) l (xs @ [e])"
proof -
  from assms(1) have c: "cyc h (l # xs)"
    using cyc_rotate[of h xs "[l]"] by (simp add: ring_def)
  from link_cyc[OF c assms(2)] ring_prev[OF assms(1)]
  have "cyc (push_back h l e) (e # l # xs)" by (simp add: push_back_def)
  then show ?thesis
    using cyc_rotate[of "push_back h l e" "[e]" "l # xs"] cyc_rotate[of "push_back h l e" "[l]" "xs @ [e]"]
    by (simp add: ring_def)
qed

lemma push_front_ring:
  assumes "ring h l xs" and "e \<notin> set (l # xs)"
  shows "ring (push_front h l e) l (e # xs)"
proof -
  from assms(1) have c: "cyc h (xs @ [l])" by (simp add: ring_def)
  from assms(2) have "e \<notin> set (xs @ [l])" by simp
  from link_cyc[OF c this] ring_nxt[OF assms(1)]
  show ?thesis by (simp add: push_front_def ring_def)
qed

lemma insert_ring:
  assumes "ring h l xs" and "xs @ [l] = A @ pos # B" and "e \<notin> set (l # xs)"
  shows "cyc (fst (insert_l h l pos e)) (A @ e # pos # B)" and "snd (insert_l h l pos e) = e"
proof -
  let ?h = "fst (insert_l h l pos e)"
  from assms have c: "cyc h (pos # B @ A)"
    using cyc_rotate[of h A "pos # B"] by (simp add: ring_def)
  have "set (A @ pos # B) = set (xs @ [l])" using assms(2) by simp
  with assms(3) have "e \<notin> set (pos # B @ A)" by auto
  from link_cyc[OF c this] cyc_prev_hd[OF c]
  have "cyc ?h (e # pos # B @ A)" by (simp add: insert_l_def)
  then show "cyc ?h (A @ e # pos # B)"
    using cyc_rotate[of ?h A "e # pos # B"] by simp
  show "snd (insert_l h l pos e) = e" by (simp add: insert_l_def)
qed

lemma erase_ring:
  assumes "ring h l xs" and "xs = A @ pos # B"
  shows "ring (fst (erase h l pos)) l (A @ B)" and "snd (erase h l pos) = hd (B @ [l])"
    and "fst (erase h l pos) pos = \<lparr>nxt = pos, prev = pos\<rparr>"
proof -
  let ?q = "hd (B @ [l])"
  have nx: "nxt (h pos) = ?q" by (rule ring_pos_nxt[OF assms])
  from assms have c: "cyc h (pos # B @ [l] @ A)"
    using cyc_rotate[of h A "pos # B @ [l]"] by (simp add: ring_def)
  then have "links h pos ?q" by (cases B) (auto simp: cyc_def links_def)
  then have pq: "prev (h ?q) = pos" by (simp add: links_def)
  have e: "erase h l pos = (unlink h pos, ?q)"
    by (simp add: erase_def iter_inc_def Let_def nx pq)
  from unlink_cyc[OF c] have "cyc (unlink h pos) (B @ [l] @ A)" by simp
  then show "ring (fst (erase h l pos)) l (A @ B)"
    using cyc_rotate[of "unlink h pos" A "B @ [l]"] by (simp add: ring_def e)
  show "snd (erase h l pos) = ?q" by (simp add: e)
  show "fst (erase h l pos) pos = \<lparr>nxt = pos, prev = pos\<rparr>" by (simp add: e unlink_unlinked)
qed

lemma pop_back_ring:
  assumes "ring h l xs" and "xs \<noteq> []"
  shows "ring (pop_back h l) l (butlast xs)" and "pop_back h l (last xs) = \<lparr>nxt = last xs, prev = last xs\<rparr>"
proof -
  from assms have p: "prev (h l) = last xs" using ring_prev[OF assms(1)] by simp
  from assms have "cyc h (last xs # l # butlast xs)"
    using cyc_rotate[of h "butlast xs @ [last xs]" "[l]"] cyc_rotate[of h "[l] @ butlast xs" "[last xs]"]
    by (simp add: ring_def)
  from unlink_cyc[OF this] have "cyc (unlink h (last xs)) (l # butlast xs)" by simp
  then show "ring (pop_back h l) l (butlast xs)"
    using cyc_rotate[of "unlink h (last xs)" "[l]" "butlast xs"] by (simp add: ring_def pop_back_def p)
  show "pop_back h l (last xs) = \<lparr>nxt = last xs, prev = last xs\<rparr>"
    by (simp add: pop_back_def p unlink_unlinked)
qed

lemma pop_front_ring:
  assumes "ring h l xs" and "xs \<noteq> []"
  shows "ring (pop_front h l) l (tl xs)" and "pop_front h l (hd xs) = \<lparr>nxt = hd xs, prev = hd xs\<rparr>"
proof -
  from assms have p: "nxt (h l) = hd xs" using ring_nxt[OF assms(1)] by simp
  from assms have "cyc h (hd xs # tl xs @ [l])" by (cases xs) (simp_all add: ring_def)
  from unlink_cyc[OF this] show "ring (pop_front h l) l (tl xs)"
    by (simp add: ring_def pop_front_def p)
  show "pop_front h l (hd xs) = \<lparr>nxt = hd xs, prev = hd xs\<rparr>"
    by (simp add: pop_front_def p unlink_unlinked)
qed

lemma seg_traverse:
  "seg h (xs @ [e]) \<Longrightarrow> e \<notin> set xs \<Longrightarrow> length xs \<le> k \<Longrightarrow> traverse k h (hd (xs @ [e])) e = Some xs"
proof (induction xs arbitrary: k)
  case Nil
  then show ?case by (cases k) simp_all
next
  case (Cons x xs)
  then obtain k' where k: "k = Suc k'" and k': "length xs \<le> k'" by (cases k) auto
  from Cons.prems have "nxt (h x) = hd (xs @ [e])" "seg h (xs @ [e])" "x \<noteq> e" "e \<notin> set xs"
    by (auto simp: seg_Cons links_def)
  with Cons.IH[OF _ _ k'] show ?case by (simp add: k iter_inc_def)
qed

lemma ring_to_list:
  assumes "ring h l xs" and "length xs \<le> k"
  shows "to_list k h l = Some xs"
proof -
  from assms(1) have "seg h (xs @ [l])" "l \<notin> set xs" by (auto simp: ring_def cyc_def)
  from seg_traverse[OF this assms(2)] ring_nxt[OF assms(1)]
  show ?thesis by (simp add: to_list_def begin_l_def end_l_def)
qed

lemma ring_frame: "(\<And>a. a \<in> set (l # xs) \<Longrightarrow> h' a = h a) \<Longrightarrow> ring h' l xs = ring h l xs"
  unfolding ring_def by (rule cyc_frame) auto

lemma ring_clear_other: "l \<notin> set (l2 # ys) \<Longrightarrow> ring (clear h l) l2 ys = ring h l2 ys"
  by (rule ring_frame) (metis clear_frame)

lemma clear_ring: "ring (clear h l) l []"
  by (simp add: ring_empty clear_node)

lemma move_assign_ring:
  assumes "ring h l2 ys" and "l \<notin> set (l2 # ys)"
  shows "ring (move_assign h l l2) l ys" and "ring (move_assign h l l2) l2 []"
    and "\<And>a. a \<noteq> l \<Longrightarrow> a \<noteq> l2 \<Longrightarrow> a \<noteq> hd (ys @ [l2]) \<Longrightarrow> a \<noteq> last (l2 # ys) \<Longrightarrow> move_assign h l l2 a = h a"
proof -
  let ?h1 = "clear h l"
  have r1: "ring ?h1 l2 ys"
    using assms by (simp add: ring_clear_other)
  have e: "empty ?h1 l2 = (ys = [])"
    using ring_prev[OF r1] r1 by (auto simp: empty_def ring_def cyc_def)
  show "ring (move_assign h l l2) l2 []"
    by (simp add: move_assign_def Let_def clear_ring)
  show "ring (move_assign h l l2) l ys"
  proof (cases "ys = []")
    case True
    with e have "move_assign h l l2 = clear ?h1 l2" by (simp add: move_assign_def Let_def)
    moreover have "ring (clear ?h1 l2) l [] = ring ?h1 l []"
      using assms by (intro ring_clear_other) auto
    ultimately show ?thesis using True by (simp add: clear_ring)
  next
    case False
    let ?h2 = "link ?h1 l (last ys) (hd ys)"
    from False e ring_prev[OF r1] ring_nxt[OF r1]
    have m: "move_assign h l l2 = clear ?h2 l2" by (simp add: move_assign_def Let_def)
    from r1 have "cyc ?h1 (l2 # ys)" using cyc_rotate[of ?h1 ys "[l2]"] by (simp add: ring_def)
    from link_replace[OF this False] assms(2) have "cyc ?h2 (l # ys)" by simp
    then have "ring ?h2 l ys" using cyc_rotate[of ?h2 "[l]" ys] by (simp add: ring_def)
    moreover have "ring (clear ?h2 l2) l ys = ring ?h2 l ys"
      using assms r1 by (intro ring_clear_other) (auto simp: ring_def cyc_def)
    ultimately show ?thesis by (simp add: m)
  qed
  fix a assume a: "a \<noteq> l" "a \<noteq> l2" "a \<noteq> hd (ys @ [l2])" "a \<noteq> last (l2 # ys)"
  show "move_assign h l l2 a = h a"
  proof (cases "ys = []")
    case True
    with e a show ?thesis by (simp add: move_assign_def Let_def clear_frame)
  next
    case False
    with e a ring_prev[OF r1] ring_nxt[OF r1] show ?thesis
      by (simp add: move_assign_def Let_def clear_frame link_frame)
  qed
qed

lemma ring_nbrs:
  assumes "ring h l xs" and "n \<in> set (l # xs)"
  shows "nxt (h n) \<in> set (l # xs)" "prev (h n) \<in> set (l # xs)"
    "prev (h (nxt (h n))) = n" "nxt (h (prev (h n))) = n"
proof -
  from assms have c: "cyc h (xs @ [l])" and n: "n \<in> set (xs @ [l])" by (simp_all add: ring_def)
  from cyc_neighbours[OF c n]
  show "nxt (h n) \<in> set (l # xs)" "prev (h n) \<in> set (l # xs)"
    "prev (h (nxt (h n))) = n" "nxt (h (prev (h n))) = n"
    by simp_all
qed

lemma ring_circular:
  assumes "ring h l xs" and "n \<in> set (l # xs)"
  shows "(iter_inc h ^^ Suc (length xs)) n = n"
proof -
  from assms have c: "cyc h (xs @ [l])" and n: "n \<in> set (xs @ [l])" by (simp_all add: ring_def)
  from cyc_circular[OF c n] show ?thesis by simp
qed

lemma positions_split:
  assumes "i \<le> length xs"
  shows "xs @ [l] = take i xs @ ((xs @ [l]) ! i) # drop (Suc i) (xs @ [l])"
    and "((xs @ [l]) ! i) # drop (Suc i) (xs @ [l]) = drop i xs @ [l]"
proof -
  from assms have i: "i < length (xs @ [l])" by simp
  from id_take_nth_drop[OF i] assms
  show "xs @ [l] = take i xs @ ((xs @ [l]) ! i) # drop (Suc i) (xs @ [l])" by simp
  from Cons_nth_drop_Suc[OF i] assms
  show "((xs @ [l]) ! i) # drop (Suc i) (xs @ [l]) = drop i xs @ [l]" by simp
qed

lemma insert_ring_nth:
  assumes "ring h l xs" and "i \<le> length xs" and "e \<notin> set (l # xs)"
  shows "ring (fst (insert_l h l ((xs @ [l]) ! i) e)) l (take i xs @ e # drop i xs)"
  using insert_ring(1)[OF assms(1) positions_split(1)[OF assms(2)] assms(3)]
    positions_split(2)[OF assms(2), of l]
  by (simp add: ring_def)

lemma erase_ring_nth:
  assumes "ring h l xs" and "i < length xs"
  shows "ring (fst (erase h l (xs ! i))) l (take i xs @ drop (Suc i) xs)"
    and "snd (erase h l (xs ! i)) = (xs @ [l]) ! Suc i"
    and "fst (erase h l (xs ! i)) (xs ! i) = \<lparr>nxt = xs ! i, prev = xs ! i\<rparr>"
proof -
  have xs: "xs = take i xs @ xs ! i # drop (Suc i) xs"
    by (rule id_take_nth_drop[OF assms(2)])
  from erase_ring[OF assms(1) xs]
  show "ring (fst (erase h l (xs ! i))) l (take i xs @ drop (Suc i) xs)"
    and "fst (erase h l (xs ! i)) (xs ! i) = \<lparr>nxt = xs ! i, prev = xs ! i\<rparr>"
    by simp_all
  have "hd (drop (Suc i) xs @ [l]) = (xs @ [l]) ! Suc i"
    using assms(2) by (simp add: hd_drop_conv_nth hd_append nth_append)
  with erase_ring(2)[OF assms(1) xs] show "snd (erase h l (xs ! i)) = (xs @ [l]) ! Suc i" by simp
qed

lemma push_back3:
  assumes "distinct [l, a, b, c]" and "h l = \<lparr>nxt = l, prev = l\<rparr>"
  shows "ring (push_back (push_back (push_back h l a) l b) l c) l [a, b, c]"
proof -
  from assms(2) have "ring h l []" by (simp add: ring_empty)
  from push_back_ring[OF this, of a] assms(1) have "ring (push_back h l a) l [a]" by simp
  from push_back_ring[OF this, of b] assms(1) have "ring (push_back (push_back h l a) l b) l [a, b]" by simp
  from push_back_ring[OF this, of c] assms(1) show ?thesis by simp
qed

lemma example_rings: "ring example_heap 10 [1, 2, 3, 4] \<and> ring example_heap 20 [5, 6]"
  by (simp add: example_heap_def ring_def cyc_def links_def nxt_push_back prev_push_back fresh_heap_def)

section \<open>Claims about single lists\<close>

text \<open>
  C6 (order preservation). Let \<open>l\<close> be a well-formed empty list and \<open>a\<close>, \<open>b\<close>, \<open>c\<close> three
  distinct nodes, none of them the sentinel. After \<^verbatim>\<open>push_back(a); push_back(b); push_back(c)\<close>
  the traversal from \<^verbatim>\<open>begin()\<close> reaches \<^verbatim>\<open>end()\<close> within three steps and has visited
  \<open>a\<close>, \<open>b\<close>, \<open>c\<close> in this order; \<^verbatim>\<open>front()\<close> is \<open>a\<close>, \<^verbatim>\<open>back()\<close> is \<open>c\<close>; and
  the list is the well-formed ring of \<open>a\<close>, \<open>b\<close>, \<open>c\<close>.
\<close>
theorem order_preservation:
  assumes "distinct [l, a, b, c]" and "h l = \<lparr>nxt = l, prev = l\<rparr>"
  shows "to_list (3 + k) (push_back (push_back (push_back h l a) l b) l c) l = Some [a, b, c]
    \<and> front (push_back (push_back (push_back h l a) l b) l c) l = a
    \<and> back_l (push_back (push_back (push_back h l a) l b) l c) l = c
    \<and> ring (push_back (push_back (push_back h l a) l b) l c) l [a, b, c]"
proof -
  let ?h = "push_back (push_back (push_back h l a) l b) l c"
  have r: "ring ?h l [a, b, c]" by (rule push_back3[of l a b c h, OF assms])
  from ring_to_list[OF r, of "3 + k"] have "to_list (3 + k) ?h l = Some [a, b, c]" by simp
  moreover from ring_nxt[OF r] have "front ?h l = a" by (simp add: front_def)
  moreover from ring_prev[OF r] have "back_l ?h l = c" by (simp add: back_l_def)
  ultimately show ?thesis using r by blast
qed

theorem order_preservation_witness:
  "distinct [0, 1, 2, 3 :: addr] \<and> list_init fresh_heap 0 0 = \<lparr>nxt = 0, prev = 0\<rparr>
   \<and> to_list 3 (push_back (push_back (push_back (list_init fresh_heap 0) 0 1) 0 2) 0 3) 0
       = Some [1, 2, 3]
   \<and> front (push_back (push_back (push_back (list_init fresh_heap 0) 0 1) 0 2) 0 3) 0 = 1
   \<and> back_l (push_back (push_back (push_back (list_init fresh_heap 0) 0 1) 0 2) 0 3) 0 = 3"
proof -
  have d: "distinct [0, 1, 2, 3 :: addr]" by simp
  have e: "list_init fresh_heap 0 0 = \<lparr>nxt = 0, prev = 0\<rparr>" by (simp add: list_init_eq)
  have k: "3 + 0 = (3 :: nat)" by simp
  from order_preservation[of 0 1 2 3 "list_init fresh_heap 0" 0, OF d e] d e
  show ?thesis unfolding k by blast
qed

text \<open>
  C7 (insert and erase). On a well-formed list with elements \<open>xs\<close>: for every position
  \<open>i \<le> length xs\<close> (the last one is \<^verbatim>\<open>end()\<close>) and every node \<open>e\<close> that is not in the
  list, \<^verbatim>\<open>insert\<close> at that position gives the list \<open>take i xs @ e # drop i xs\<close>, that is,
  \<open>e\<close> immediately before the element that was at the position, or last when the position
  is \<^verbatim>\<open>end()\<close>, and it returns an iterator to \<open>e\<close>. For every position \<open>i < length xs\<close>,
  \<^verbatim>\<open>erase\<close> gives the list without its \<open>i\<close>-th element, the others in their order, returns
  the position that followed (\<^verbatim>\<open>end()\<close> when the element was last), and leaves the erased
  node self-referencing.
\<close>
theorem insert_erase_semantics:
  "(ring h l xs \<and> i \<le> length xs \<and> e \<notin> set (l # xs) \<longrightarrow>
      ring (fst (insert_l h l ((xs @ [l]) ! i) e)) l (take i xs @ e # drop i xs)
      \<and> to_list (Suc (length xs)) (fst (insert_l h l ((xs @ [l]) ! i) e)) l
          = Some (take i xs @ e # drop i xs)
      \<and> snd (insert_l h l ((xs @ [l]) ! i) e) = e)
   \<and> (ring h l xs \<and> i < length xs \<longrightarrow>
      ring (fst (erase h l (xs ! i))) l (take i xs @ drop (Suc i) xs)
      \<and> to_list (length xs) (fst (erase h l (xs ! i))) l = Some (take i xs @ drop (Suc i) xs)
      \<and> snd (erase h l (xs ! i)) = (xs @ [l]) ! Suc i
      \<and> fst (erase h l (xs ! i)) (xs ! i) = \<lparr>nxt = xs ! i, prev = xs ! i\<rparr>)"
proof (intro conjI impI)
  assume a: "ring h l xs \<and> i \<le> length xs \<and> e \<notin> set (l # xs)"
  then have r: "ring h l xs" and i: "i \<le> length xs" and e: "e \<notin> set (l # xs)" by blast+
  let ?h = "fst (insert_l h l ((xs @ [l]) ! i) e)"
  show r': "ring ?h l (take i xs @ e # drop i xs)" by (rule insert_ring_nth[OF r i e])
  show "to_list (Suc (length xs)) ?h l = Some (take i xs @ e # drop i xs)"
    using i by (intro ring_to_list[OF r']) simp
  show "snd (insert_l h l ((xs @ [l]) ! i) e) = e" by (simp add: insert_l_def)
next
  assume a: "ring h l xs \<and> i < length xs"
  then have r: "ring h l xs" and i: "i < length xs" by blast+
  let ?h = "fst (erase h l (xs ! i))"
  show r': "ring ?h l (take i xs @ drop (Suc i) xs)" by (rule erase_ring_nth(1)[OF r i])
  show "to_list (length xs) ?h l = Some (take i xs @ drop (Suc i) xs)"
    using i by (intro ring_to_list[OF r']) simp
  show "snd (erase h l (xs ! i)) = (xs @ [l]) ! Suc i" by (rule erase_ring_nth(2)[OF r i])
  show "?h (xs ! i) = \<lparr>nxt = xs ! i, prev = xs ! i\<rparr>" by (rule erase_ring_nth(3)[OF r i])
qed

theorem insert_erase_semantics_witness:
  "ring example_heap 10 [1, 2, 3, 4] \<and> (2 :: nat) \<le> length [1, 2, 3, 4 :: addr]
   \<and> (7 :: addr) \<notin> set (10 # [1, 2, 3, 4])
   \<and> ring (fst (insert_l example_heap 10 3 7)) 10 [1, 2, 7, 3, 4]
   \<and> to_list 5 (fst (insert_l example_heap 10 3 7)) 10 = Some [1, 2, 7, 3, 4]
   \<and> snd (insert_l example_heap 10 3 7) = 7
   \<and> ring (fst (erase example_heap 10 3)) 10 [1, 2, 4]
   \<and> to_list 4 (fst (erase example_heap 10 3)) 10 = Some [1, 2, 4]
   \<and> snd (erase example_heap 10 3) = 4
   \<and> fst (erase example_heap 10 3) 3 = \<lparr>nxt = 3, prev = 3\<rparr>"
proof -
  have r: "ring example_heap 10 [1, 2, 3, 4]" using example_rings by simp
  have len: "length [1, 2, 3, 4 :: addr] = 4" "Suc 4 = 5" by simp_all
  have el: "([1, 2, 3, 4] @ [10 :: addr]) ! 2 = 3" "[1, 2, 3, 4 :: addr] ! 2 = 3"
    "([1, 2, 3, 4] @ [10 :: addr]) ! Suc 2 = 4"
    "take 2 [1, 2, 3, 4 :: addr] @ 7 # drop 2 [1, 2, 3, 4] = [1, 2, 7, 3, 4]"
    "take 2 [1, 2, 3, 4 :: addr] @ drop (Suc 2) [1, 2, 3, 4] = [1, 2, 4]"
    by simp_all
  have p: "(2 :: nat) \<le> length [1, 2, 3, 4 :: addr]" "(2 :: nat) < length [1, 2, 3, 4 :: addr]"
    "(7 :: addr) \<notin> set (10 # [1, 2, 3, 4])" by simp_all
  from insert_erase_semantics[of example_heap 10 "[1, 2, 3, 4]" 2 7] r p
  show ?thesis unfolding el len by blast
qed

text \<open>
  C3 (move transfer). \<open>l1\<close> is a well-formed list with elements \<open>xs\<close>, possibly none;
  \<open>l2\<close> is a new list object, at an address that is neither \<open>l1\<close> nor one of its elements.
  After the move constructor \<open>l2\<close> is the well-formed ring of the same nodes \<open>xs\<close> in the
  same order, its traversal gives what the traversal of \<open>l1\<close> gave before, \<open>l1\<close> is the
  well-formed empty list, and no node of the store has changed other than the two sentinels
  and the first and the last element, whose pointers to the sentinel are redirected.
\<close>
theorem move_transfer:
  assumes "ring h l1 xs" and "l2 \<notin> set (l1 # xs)"
  shows "ring (list_move h l2 l1) l2 xs
    \<and> ring (list_move h l2 l1) l1 []
    \<and> to_list (length xs + k) (list_move h l2 l1) l2 = to_list (length xs + k) h l1
    \<and> to_list (length xs + k) (list_move h l2 l1) l2 = Some xs
    \<and> empty (list_move h l2 l1) l1
    \<and> (\<forall>a. a \<notin> {l1, l2, hd (xs @ [l1]), last (l1 # xs)} \<longrightarrow> list_move h l2 l1 a = h a)"
proof -
  let ?g = "elem_init h l2"
  let ?h = "list_move h l2 l1"
  have "ring ?g l1 xs = ring h l1 xs"
  proof (rule ring_frame)
    fix a assume "a \<in> set (l1 # xs)"
    with assms(2) have "a \<noteq> l2" by blast
    then show "?g a = h a" by (rule elem_init_frame)
  qed
  with assms(1) have r0: "ring ?g l1 xs" by simp
  note m = move_assign_ring[OF r0 assms(2)]
  have r2: "ring ?h l2 xs" and r1: "ring ?h l1 []"
    using m(1,2) by (simp_all add: list_move_def)
  have fr: "\<forall>a. a \<notin> {l1, l2, hd (xs @ [l1]), last (l1 # xs)} \<longrightarrow> ?h a = h a"
  proof (intro allI impI)
    fix a assume a: "a \<notin> {l1, l2, hd (xs @ [l1]), last (l1 # xs)}"
    then have "a \<noteq> l2" "a \<noteq> l1" "a \<noteq> hd (xs @ [l1])" "a \<noteq> last (l1 # xs)" by auto
    then have "move_assign ?g l2 l1 a = ?g a" by (rule m(3))
    with a show "?h a = h a" by (simp add: list_move_def elem_init_frame)
  qed
  have t2: "to_list (length xs + k) ?h l2 = Some xs" by (rule ring_to_list[OF r2]) simp
  have t1: "to_list (length xs + k) h l1 = Some xs" by (rule ring_to_list[OF assms(1)]) simp
  have e: "empty ?h l1" using ring_prev[OF r1] by (simp add: empty_def)
  from r2 r1 t1 t2 e fr show ?thesis by simp
qed

theorem move_transfer_witness:
  "ring example_heap 10 [1, 2, 3, 4] \<and> (30 :: addr) \<notin> set (10 # [1, 2, 3, 4])
   \<and> ring (list_move example_heap 30 10) 30 [1, 2, 3, 4]
   \<and> ring (list_move example_heap 30 10) 10 []
   \<and> to_list 4 (list_move example_heap 30 10) 30 = Some [1, 2, 3, 4]
   \<and> empty (list_move example_heap 30 10) 10"
proof -
  have r: "ring example_heap 10 [1, 2, 3, 4]" using example_rings by simp
  have n: "(30 :: addr) \<notin> set (10 # [1, 2, 3, 4])" by simp
  have k: "length [1, 2, 3, 4 :: addr] + 0 = 4" by simp
  from move_transfer[OF r n, of 0] r n show ?thesis unfolding k by blast
qed

section \<open>Splice\<close>

lemma splice_segs:
  fixes this other :: addr
  assumes d: "distinct (R @ X @ Y)" and ne: "R \<noteq> []" "X \<noteq> []" "Y \<noteq> []"
    and s: "seg h R" "seg h X" "seg h Y"
    and p: "prev (h (hd R)) = P" "prev (h (hd X)) = last R" "prev (h (hd Y)) = Q"
    and pq: "(P = last X \<and> Q = last Y) \<or> (P = last Y \<and> Q = last X)"
  defines "h' \<equiv> splice_l h this (hd Y) other (hd R) (hd X)"
  shows "seg h' R" "seg h' X" "seg h' Y"
    and "links h' Q (hd R)" "links h' (last R) (hd Y)" "links h' P (hd X)"
    and "\<And>a. a \<notin> set (R @ X @ Y) \<Longrightarrow> h' a = h a"
proof -
  have hd_in: "hd R \<in> set R" "hd X \<in> set X" "hd Y \<in> set Y"
    and last_in: "last R \<in> set R" "last X \<in> set X" "last Y \<in> set Y"
    using ne by simp_all
  have fl: "hd R \<noteq> hd X" and pl: "hd Y \<noteq> hd X" and pf: "hd Y \<noteq> hd R"
    using d hd_in by auto
  have lasts: "last R \<noteq> last X" "last R \<noteq> last Y" "last X \<noteq> last Y"
    using d last_in by auto
  have nx: "nxt (h' a) = (if a = last R then hd Y else if a = Q then hd R
      else if a = P then hd X else nxt (h a))" for a
    unfolding h'_def using fl pl p by (simp add: nxt_splice)
  have pv: "prev (h' a) = (if a = hd Y then last R else if a = hd R then Q
      else if a = hd X then P else prev (h a))" for a
    unfolding h'_def using fl pl p by (simp add: prev_splice)
  have fr: "seg h' cs = seg h cs"
    if "last R \<notin> set (butlast cs)" "last X \<notin> set (butlast cs)" "last Y \<notin> set (butlast cs)"
      "hd R \<notin> set (tl cs)" "hd X \<notin> set (tl cs)" "hd Y \<notin> set (tl cs)" for cs
  proof (rule seg_frame)
    fix a assume "a \<in> set (butlast cs)"
    with that pq have "a \<noteq> last R" "a \<noteq> Q" "a \<noteq> P" by auto
    then show "nxt (h' a) = nxt (h a)" by (simp add: nx)
  next
    fix a assume "a \<in> set (tl cs)"
    with that have "a \<noteq> hd Y" "a \<noteq> hd R" "a \<noteq> hd X" by auto
    then show "prev (h' a) = prev (h a)" by (simp add: pv)
  qed
  have dR: "distinct R" and dX: "distinct X" and dY: "distinct Y" using d by simp_all
  have bl: "set (butlast cs) \<subseteq> set cs" and tl: "set (tl cs) \<subseteq> set cs" for cs :: "addr list"
    by (auto dest: in_set_butlastD) (cases cs; auto)
  have "seg h' R = seg h R"
    using distinct_last_butlast[OF dR ne(1)] distinct_hd_tl[OF dR ne(1)] d hd_in last_in
      bl[of R] tl[of R]
    by (intro fr) auto
  with s show "seg h' R" by simp
  have "seg h' X = seg h X"
    using distinct_last_butlast[OF dX ne(2)] distinct_hd_tl[OF dX ne(2)] d hd_in last_in
      bl[of X] tl[of X]
    by (intro fr) auto
  with s show "seg h' X" by simp
  have "seg h' Y = seg h Y"
    using distinct_last_butlast[OF dY ne(3)] distinct_hd_tl[OF dY ne(3)] d hd_in last_in
      bl[of Y] tl[of Y]
    by (intro fr) auto
  with s show "seg h' Y" by simp
  show "links h' Q (hd R)" using pq lasts pf by (auto simp: links_def nx pv)
  show "links h' (last R) (hd Y)" by (simp add: links_def nx pv)
  show "links h' P (hd X)" using pq lasts pl fl by (auto simp: links_def nx pv)
  fix a assume a: "a \<notin> set (R @ X @ Y)"
  with hd_in last_in pq have "a \<noteq> last R" "a \<noteq> Q" "a \<noteq> P" "a \<noteq> hd Y" "a \<noteq> hd R" "a \<noteq> hd X"
    by auto
  then have "nxt (h' a) = nxt (h a)" "prev (h' a) = prev (h a)" by (simp_all add: nx pv)
  then show "h' a = h a" by simp
qed

lemma splice_two:
  fixes this other :: addr
  assumes c1: "cyc h (R @ X)" and c2: "cyc h Y" and dj: "set (R @ X) \<inter> set Y = {}"
    and ne: "R \<noteq> []" "X \<noteq> []"
  defines "h' \<equiv> splice_l h this (hd Y) other (hd R) (hd X)"
  shows "cyc h' X" and "cyc h' (R @ Y)"
    and "\<And>a. a \<notin> set (R @ X @ Y) \<Longrightarrow> h' a = h a"
proof -
  from c2 have neY: "Y \<noteq> []" by (simp add: cyc_def)
  from c1 c2 dj have d: "distinct (R @ X @ Y)" by (auto simp: cyc_def)
  from c1 ne have s: "seg h R" "seg h X" and l1: "links h (last R) (hd X)" and l2: "links h (last X) (hd R)"
    by (simp_all add: cyc_def seg_append)
  from c2 have sY: "seg h Y" and l3: "links h (last Y) (hd Y)" by (simp_all add: cyc_def)
  from l1 l2 l3 have p: "prev (h (hd R)) = last X" "prev (h (hd X)) = last R" "prev (h (hd Y)) = last Y"
    by (simp_all add: links_def)
  have pq: "(last X = last X \<and> last Y = last Y) \<or> (last X = last Y \<and> last Y = last X)" by simp
  note r = splice_segs[OF d ne neY s sY p pq, where this=this and other=other, folded h'_def]
  from d have dX: "distinct X" and dRY: "distinct (R @ Y)" by auto
  from r(2,6) dX ne show "cyc h' X" by (simp add: cyc_def)
  from r(1,3,4,5) dRY ne neY show "cyc h' (R @ Y)" by (simp add: cyc_def seg_append)
  fix a assume "a \<notin> set (R @ X @ Y)"
  then show "h' a = h a" by (rule r(7))
qed

lemma splice_one:
  fixes this other :: addr
  assumes c: "cyc h (R @ X @ Y)" and ne: "R \<noteq> []" "X \<noteq> []" "Y \<noteq> []"
  defines "h' \<equiv> splice_l h this (hd Y) other (hd R) (hd X)"
  shows "cyc h' (X @ R @ Y)"
    and "\<And>a. a \<notin> set (R @ X @ Y) \<Longrightarrow> h' a = h a"
proof -
  from c have d: "distinct (R @ X @ Y)" by (simp add: cyc_def)
  from c ne have s: "seg h R" "seg h X" "seg h Y"
    and l1: "links h (last R) (hd X)" and l2: "links h (last X) (hd Y)" and l3: "links h (last Y) (hd R)"
    by (simp_all add: cyc_def seg_append)
  from l1 l2 l3 have p: "prev (h (hd R)) = last Y" "prev (h (hd X)) = last R" "prev (h (hd Y)) = last X"
    by (simp_all add: links_def)
  have pq: "(last Y = last X \<and> last X = last Y) \<or> (last Y = last Y \<and> last X = last X)" by simp
  note r = splice_segs[OF d ne s p pq, where this=this and other=other, folded h'_def]
  from d have d': "distinct (X @ R @ Y)" by auto
  from r(1-6) ne have "seg h' (X @ R @ Y)" "links h' (last (X @ R @ Y)) (hd (X @ R @ Y))"
    by (simp_all add: seg_append)
  with d' ne show "cyc h' (X @ R @ Y)" by (simp add: cyc_def)
  fix a assume "a \<notin> set (R @ X @ Y)"
  then show "h' a = h a" by (rule r(7))
qed

lemma splice_noop:
  assumes c: "cyc h (R @ X)" and ne: "R \<noteq> []" "X \<noteq> []"
  shows "splice_l h this (hd X) other (hd R) (hd X) = h"
proof (cases "hd R = hd X")
  case True
  then show ?thesis by (simp add: splice_l_def)
next
  case False
  from c ne have l1: "links h (last R) (hd X)" and l2: "links h (last X) (hd R)"
    by (simp_all add: cyc_def seg_append)
  then have f: "nxt (h (last R)) = hd X" "prev (h (hd X)) = last R"
    "nxt (h (last X)) = hd R" "prev (h (hd R)) = last X"
    by (simp_all add: links_def)
  show ?thesis
  proof (rule heap_eqI)
    fix a
    have "nxt (splice_l h this (hd X) other (hd R) (hd X) a) = nxt (h a)"
      using f by (simp add: nxt_splice[OF False])
    moreover have "prev (splice_l h this (hd X) other (hd R) (hd X) a) = prev (h a)"
      using f by (simp add: prev_splice[OF False])
    ultimately show "nxt (splice_l h this (hd X) other (hd R) (hd X) a) = nxt (h a) \<and>
         prev (splice_l h this (hd X) other (hd R) (hd X) a) = prev (h a)" ..
  qed
qed

lemma range_split: "j \<le> k \<Longrightarrow> ys = take j ys @ range_of j k ys @ drop k ys"
proof -
  assume "j \<le> k"
  then have "drop (k - j) (drop j ys) = drop k ys" by simp
  moreover have "take (k - j) (drop j ys) @ drop (k - j) (drop j ys) = drop j ys"
    by (rule append_take_drop_id)
  ultimately have "range_of j k ys @ drop k ys = drop j ys" by (simp only: range_of_def)
  then show ?thesis by simp
qed

lemma range_hd: "j < k \<Longrightarrow> k \<le> length ys \<Longrightarrow> range_of j k ys \<noteq> [] \<and> hd (range_of j k ys) = (ys @ zs) ! j"
  by (simp add: range_of_def hd_drop_conv_nth nth_append)

lemma range_empty: "range_of j j ys = []"
  by (simp add: range_of_def)

lemma position_hd: "k \<le> length ys \<Longrightarrow> hd (drop k ys @ [l] @ zs) = (ys @ [l]) ! k"
  by (cases "k < length ys") (simp_all add: hd_append hd_drop_conv_nth nth_append)

lemma take_split: "i \<le> j \<Longrightarrow> take j xs = take i xs @ drop i (take j xs)"
proof -
  assume "i \<le> j"
  then have "take i (take j xs) = take i xs" by (simp add: min_def)
  then show ?thesis using append_take_drop_id[of i "take j xs"] by simp
qed

lemma drop_split: "k \<le> i \<Longrightarrow> drop k xs = drop k (take i xs) @ drop i xs"
proof -
  assume ki: "k \<le> i"
  have "drop k (take i xs @ drop i xs) = drop k (take i xs) @ drop (k - length (take i xs)) (drop i xs)"
    by (rule drop_append)
  moreover have "drop (k - length (take i xs)) (drop i xs) = drop i xs"
    using ki by (cases "i \<le> length xs") (simp_all add: min_def)
  ultimately show ?thesis by simp
qed

lemma between_hd: "i < j \<Longrightarrow> j \<le> length xs \<Longrightarrow> drop i (take j xs) \<noteq> [] \<and> hd (drop i (take j xs)) = (xs @ zs) ! i"
  by (simp add: hd_drop_conv_nth nth_append)

lemma take_drop_app: "take i xs @ drop i xs @ zs = xs @ zs"
  using append_take_drop_id[of i xs] by (simp flip: append_assoc del: append_take_drop_id)

lemma splice_ring_two:
  fixes this other :: addr
  assumes r1: "ring h l1 xs" and r2: "ring h l2 ys"
    and dj: "set (l1 # xs) \<inter> set (l2 # ys) = {}"
    and i: "i \<le> length xs" and jk: "j \<le> k" and k: "k \<le> length ys"
  defines "h' \<equiv> splice_l h this ((xs @ [l1]) ! i) other ((ys @ [l2]) ! j) ((ys @ [l2]) ! k)"
  shows "ring h' l1 (take i xs @ range_of j k ys @ drop i xs)"
    and "ring h' l2 (take j ys @ drop k ys)"
    and "\<And>a. a \<notin> set (l1 # xs) \<Longrightarrow> a \<notin> set (l2 # ys) \<Longrightarrow> h' a = h a"
proof -
  let ?R = "range_of j k ys"
  let ?X = "drop k ys @ [l2] @ take j ys"
  let ?Y = "drop i xs @ [l1] @ take i xs"
  have all: "ring h' l1 (take i xs @ ?R @ drop i xs) \<and> ring h' l2 (take j ys @ drop k ys)
      \<and> (\<forall>a. a \<notin> set (l1 # xs) \<longrightarrow> a \<notin> set (l2 # ys) \<longrightarrow> h' a = h a)"
  proof (cases "j = k")
    case True
    then have "h' = h" by (simp add: h'_def splice_l_def)
    with True r1 r2 show ?thesis by (simp add: range_empty)
  next
    case False
    with jk have lt: "j < k" by simp
    from range_hd[OF lt k] have neR: "?R \<noteq> []" and hdR: "hd ?R = (ys @ [l2]) ! j" by simp_all
    have hdX: "hd ?X = (ys @ [l2]) ! k" by (rule position_hd[OF k])
    have hdY: "hd ?Y = (xs @ [l1]) ! i" by (rule position_hd[OF i])
    have ys: "ys = take j ys @ ?R @ drop k ys" by (rule range_split[OF jk])
    have "cyc h ((take j ys) @ (?R @ drop k ys @ [l2]))"
      using r2 ys by (metis append.assoc ring_def)
    then have c1: "cyc h (?R @ ?X)"
      using cyc_rotate[of h "take j ys" "?R @ drop k ys @ [l2]"] by simp
    have "cyc h (take i xs @ (drop i xs @ [l1]))" using r1 by (simp add: ring_def take_drop_app)
    then have c2: "cyc h ?Y"
      using cyc_rotate[of h "take i xs" "drop i xs @ [l1]"] by simp
    have sRX: "set (?R @ ?X) = set (l2 # ys)"
    proof -
      from ys have "set ys = set (take j ys) \<union> set ?R \<union> set (drop k ys)"
        by (metis append.assoc set_append)
      then show ?thesis by auto
    qed
    have sY: "set ?Y = set (l1 # xs)"
    proof -
      have "set xs = set (take i xs) \<union> set (drop i xs)" by (metis append_take_drop_id set_append)
      then show ?thesis by auto
    qed
    from dj sRX sY have d: "set (?R @ ?X) \<inter> set ?Y = {}" by (simp only:) blast
    have neX: "?X \<noteq> []" by simp
    note s = splice_two[OF c1 c2 d neR neX, where this=this and other=other]
    have h': "h' = splice_l h this (hd ?Y) other (hd ?R) (hd ?X)"
      by (simp only: h'_def hdR hdX hdY)
    from s(1) have "cyc h' (drop k ys @ [l2] @ take j ys)" by (simp only: h')
    then have "cyc h' (take j ys @ drop k ys @ [l2])"
      using cyc_rotate[of h' "take j ys" "drop k ys @ [l2]"] by simp
    then have g2: "ring h' l2 (take j ys @ drop k ys)" by (simp add: ring_def)
    from s(2) have "cyc h' ((?R @ drop i xs @ [l1]) @ take i xs)" by (simp only: h' append.assoc)
    then have "cyc h' (take i xs @ ?R @ drop i xs @ [l1])"
      using cyc_rotate[of h' "take i xs" "?R @ drop i xs @ [l1]"] by simp
    then have g1: "ring h' l1 (take i xs @ ?R @ drop i xs)" by (simp add: ring_def)
    have g3: "h' a = h a" if "a \<notin> set (l1 # xs)" "a \<notin> set (l2 # ys)" for a
    proof -
      from that sRX sY have "a \<notin> set (?R @ ?X @ ?Y)" by (simp only: set_append append.assoc[symmetric]) blast
      from s(3)[OF this] show ?thesis by (simp only: h')
    qed
    from g1 g2 g3 show ?thesis by blast
  qed
  from all show "ring h' l1 (take i xs @ ?R @ drop i xs)" "ring h' l2 (take j ys @ drop k ys)" by blast+
  fix a assume "a \<notin> set (l1 # xs)" "a \<notin> set (l2 # ys)"
  with all show "h' a = h a" by blast
qed

lemma splice_ring_same:
  fixes this other :: addr
  assumes r: "ring h l xs"
    and i: "i \<le> length xs" and jk: "j \<le> k" and k: "k \<le> length xs"
    and out: "i < j \<or> k \<le> i"
  defines "h' \<equiv> splice_l h this ((xs @ [l]) ! i) other ((xs @ [l]) ! j) ((xs @ [l]) ! k)"
  shows "ring h' l (if i < j then take i xs @ range_of j k xs @ drop i (take j xs) @ drop k xs
                   else take j xs @ drop k (take i xs) @ range_of j k xs @ drop i xs)
      \<and> (\<forall>a. a \<notin> set (l # xs) \<longrightarrow> h' a = h a)"
proof -
  let ?R = "range_of j k xs"
  have xs: "xs = take j xs @ ?R @ drop k xs" by (rule range_split[OF jk])
  show ?thesis
  proof (cases "j = k")
    case True
    then have e: "h' = h" by (simp add: h'_def splice_l_def)
    show ?thesis
    proof (cases "i < j")
      case True
      with take_split[of i j xs] have "take i xs @ drop i (take j xs) @ drop j xs = xs"
        by (metis append.assoc append_take_drop_id less_imp_le)
      with True \<open>j = k\<close> r e show ?thesis by (simp add: range_empty)
    next
      case False
      with out have "k \<le> i" by simp
      from drop_split[OF this, of xs] \<open>j = k\<close> have "take j xs @ drop k (take i xs) @ drop i xs = xs"
        by (metis append_take_drop_id)
      with False \<open>j = k\<close> r e show ?thesis by (simp add: range_empty)
    qed
  next
    case False
    with jk have lt: "j < k" by simp
    from range_hd[OF lt k] have neR: "?R \<noteq> []" and hdR: "hd ?R = (xs @ [l]) ! j" by simp_all
    consider (before) "i < j" | (at) "i = k" | (after) "k < i" using out by linarith
    then show ?thesis
    proof cases
      case before
      let ?C = "take i xs" and ?M = "drop i (take j xs)" and ?B = "drop k xs @ [l]"
      from before k jk have "j \<le> length xs" by simp
      from between_hd[OF before this] have neM: "?M \<noteq> []" and hdM: "hd ?M = (xs @ [l]) ! i"
        by simp_all
      have hdX: "hd (?B @ ?C) = (xs @ [l]) ! k" using position_hd[OF k, of l ?C] by simp
      from before have "take j xs = ?C @ ?M" by (intro take_split) simp
      with xs have "xs @ [l] = (?C @ ?M) @ (?R @ ?B)" by (metis append.assoc)
      with r have "cyc h ((?C @ ?M) @ (?R @ ?B))" by (simp only: ring_def)
      then have c: "cyc h (?R @ (?B @ ?C) @ ?M)"
        using cyc_rotate[of h "?C @ ?M" "?R @ ?B"] by simp
      have neX: "?B @ ?C \<noteq> []" by simp
      note s = splice_one[OF c neR neX neM, where this=this and other=other]
      have h': "h' = splice_l h this (hd ?M) other (hd ?R) (hd (?B @ ?C))"
        by (simp only: h'_def hdR hdX hdM)
      from s(1) have "cyc h' ((drop k xs @ [l]) @ (?C @ ?R @ ?M))" by (simp only: h' append.assoc)
      then have "cyc h' ((?C @ ?R @ ?M) @ (drop k xs @ [l]))"
        using cyc_rotate[of h' "drop k xs @ [l]" "?C @ ?R @ ?M"] by simp
      then have g1: "ring h' l (?C @ ?R @ ?M @ drop k xs)" by (simp add: ring_def)
      have "set (?R @ (?B @ ?C) @ ?M) = set ((?C @ ?M) @ (?R @ ?B))" by auto
      also have "\<dots> = set (xs @ [l])"
        using \<open>xs @ [l] = (?C @ ?M) @ (?R @ ?B)\<close> by (simp only:)
      finally have st: "set (?R @ (?B @ ?C) @ ?M) = set (l # xs)" by simp
      have g2: "h' a = h a" if "a \<notin> set (l # xs)" for a
        using s(2)[of a] that st by (simp only: h') blast
      from g1 g2 before show ?thesis by simp
    next
      case at
      let ?X = "drop k xs @ [l] @ take j xs"
      have hdX: "hd ?X = (xs @ [l]) ! k" by (rule position_hd[OF k])
      from xs have "xs @ [l] = take j xs @ (?R @ drop k xs @ [l])" by (metis append.assoc)
      with r have "cyc h (take j xs @ (?R @ drop k xs @ [l]))" by (simp only: ring_def)
      then have c: "cyc h (?R @ ?X)"
        using cyc_rotate[of h "take j xs" "?R @ drop k xs @ [l]"] by simp
      have neX: "?X \<noteq> []" by simp
      from splice_noop[OF c neR neX, of this other] have e: "h' = h"
        by (simp only: h'_def hdR hdX at)
      from at have "drop k (take i xs) = []" by simp
      with xs have "take j xs @ drop k (take i xs) @ ?R @ drop i xs = xs" using at by simp
      with r e at lt show ?thesis by simp
    next
      case after
      let ?M = "drop k (take i xs)" and ?D = "drop i xs @ [l]"
      from between_hd[OF after i] have neM: "?M \<noteq> []" and hdM: "hd ?M = (xs @ [l]) ! k"
        by simp_all
      have hdY: "hd (?D @ take j xs) = (xs @ [l]) ! i" using position_hd[OF i, of l "take j xs"] by simp
      from after have "drop k xs = ?M @ drop i xs" by (intro drop_split) simp
      with xs have "xs @ [l] = take j xs @ (?R @ ?M @ ?D)" by (metis append.assoc)
      with r have "cyc h (take j xs @ (?R @ ?M @ ?D))" by (simp only: ring_def)
      then have c: "cyc h (?R @ ?M @ (?D @ take j xs))"
        using cyc_rotate[of h "take j xs" "?R @ ?M @ ?D"] by simp
      have neY: "?D @ take j xs \<noteq> []" by simp
      note s = splice_one[OF c neR neM neY, where this=this and other=other]
      have h': "h' = splice_l h this (hd (?D @ take j xs)) other (hd ?R) (hd ?M)"
        by (simp only: h'_def hdR hdY hdM)
      from s(1) have "cyc h' ((?M @ ?R @ ?D) @ take j xs)" by (simp only: h' append.assoc)
      then have "cyc h' (take j xs @ (?M @ ?R @ ?D))"
        using cyc_rotate[of h' "take j xs" "?M @ ?R @ ?D"] by simp
      then have g1: "ring h' l (take j xs @ ?M @ ?R @ drop i xs)" by (simp add: ring_def)
      have "set (?R @ ?M @ (?D @ take j xs)) = set (take j xs @ (?R @ ?M @ ?D))" by auto
      also have "\<dots> = set (xs @ [l])"
        using \<open>xs @ [l] = take j xs @ (?R @ ?M @ ?D)\<close> by (simp only:)
      finally have st: "set (?R @ ?M @ (?D @ take j xs)) = set (l # xs)" by simp
      have g2: "h' a = h a" if "a \<notin> set (l # xs)" for a
        using s(2)[of a] that st by (simp only: h') blast
      from after lt have "\<not> i < j" by simp
      with g1 g2 show ?thesis by simp
    qed
  qed
qed

lemma example_splice:
  "ring (splice_l example_heap 20 6 10 2 4) 10 [1, 4]
   \<and> ring (splice_l example_heap 20 6 10 2 4) 20 [5, 2, 3, 6]"
proof -
  have r: "ring example_heap 20 [5, 6]" "ring example_heap 10 [1, 2, 3, 4]"
    using example_rings by simp_all
  have d: "set (20 # [5, 6]) \<inter> set (10 # [1, 2, 3, 4 :: addr]) = {}" by simp
  from splice_ring_two(1,2)[OF r d, of 1 1 3, where this = 20 and other = 10]
  show ?thesis by (simp add: range_of_def)
qed

text \<open>
  C2 (splice correctness). The destination list \<open>l1\<close> holds \<open>xs\<close>, and \<open>pos\<close> is its
  position \<open>i\<close>; the range is the positions \<open>[j, k)\<close> of the source list.
  \<^item> Source another list \<open>l2\<close> holding \<open>ys\<close>, both lists well formed with no node in common:
    afterwards \<open>l1\<close> holds \<open>take i xs @ range_of j k ys @ drop i xs\<close> (the range, in its
    order, immediately before \<open>pos\<close>) and \<open>l2\<close> holds \<open>take j ys @ drop k ys\<close>.
  \<^item> Source the same list, \<open>pos\<close> outside the range (\<open>i < j\<close>, or \<open>k \<le> i\<close>, which includes
    \<open>pos = last\<close>): afterwards the list holds its elements with the range moved to
    immediately before \<open>pos\<close>.
  \<^item> \<open>first = last\<close>: the store is unchanged, whatever the other arguments are.
  \<^item> The example of the specification: from \<open>A = [1, 2, 3, 4]\<close> and \<open>B = [5, 6]\<close>, splicing
    \<open>A\<close>'s range from 2 up to 4 before \<open>B\<close>'s 6 gives \<open>A = [1, 4]\<close> and
    \<open>B = [5, 2, 3, 6]\<close>.
\<close>
theorem splice_correctness:
  "(ring h l1 xs \<and> ring h l2 ys \<and> set (l1 # xs) \<inter> set (l2 # ys) = {}
      \<and> i \<le> length xs \<and> j \<le> k \<and> k \<le> length ys \<longrightarrow>
      ring (splice_l h l1 ((xs @ [l1]) ! i) l2 ((ys @ [l2]) ! j) ((ys @ [l2]) ! k)) l1
        (take i xs @ range_of j k ys @ drop i xs)
      \<and> ring (splice_l h l1 ((xs @ [l1]) ! i) l2 ((ys @ [l2]) ! j) ((ys @ [l2]) ! k)) l2
        (take j ys @ drop k ys))
   \<and> (ring h l1 xs \<and> i \<le> length xs \<and> j \<le> k \<and> k \<le> length xs \<and> (i < j \<or> k \<le> i) \<longrightarrow>
      ring (splice_l h l1 ((xs @ [l1]) ! i) l1 ((xs @ [l1]) ! j) ((xs @ [l1]) ! k)) l1
        (if i < j then take i xs @ range_of j k xs @ drop i (take j xs) @ drop k xs
         else take j xs @ drop k (take i xs) @ range_of j k xs @ drop i xs))
   \<and> splice_l h this pos other p p = h
   \<and> to_list 4 example_heap 10 = Some [1, 2, 3, 4]
   \<and> to_list 4 example_heap 20 = Some [5, 6]
   \<and> to_list 4 (splice_l example_heap 20 6 10 2 4) 10 = Some [1, 4]
   \<and> to_list 4 (splice_l example_heap 20 6 10 2 4) 20 = Some [5, 2, 3, 6]"
proof (intro conjI impI)
  assume a: "ring h l1 xs \<and> ring h l2 ys \<and> set (l1 # xs) \<inter> set (l2 # ys) = {}
      \<and> i \<le> length xs \<and> j \<le> k \<and> k \<le> length ys"
  then have r1: "ring h l1 xs" and r2: "ring h l2 ys" and d: "set (l1 # xs) \<inter> set (l2 # ys) = {}"
    and i: "i \<le> length xs" and jk: "j \<le> k" and k: "k \<le> length ys" by blast+
  note s = splice_ring_two(1,2)[OF r1 r2 d i jk k, where this = l1 and other = l2]
  show "ring (splice_l h l1 ((xs @ [l1]) ! i) l2 ((ys @ [l2]) ! j) ((ys @ [l2]) ! k)) l1
        (take i xs @ range_of j k ys @ drop i xs)" by (rule s(1))
  show "ring (splice_l h l1 ((xs @ [l1]) ! i) l2 ((ys @ [l2]) ! j) ((ys @ [l2]) ! k)) l2
        (take j ys @ drop k ys)" by (rule s(2))
next
  assume a: "ring h l1 xs \<and> i \<le> length xs \<and> j \<le> k \<and> k \<le> length xs \<and> (i < j \<or> k \<le> i)"
  then have r1: "ring h l1 xs" and i: "i \<le> length xs" and jk: "j \<le> k" and k: "k \<le> length xs"
    and out: "i < j \<or> k \<le> i" by blast+
  from splice_ring_same[OF r1 i jk k out, where this = l1 and other = l1]
  show "ring (splice_l h l1 ((xs @ [l1]) ! i) l1 ((xs @ [l1]) ! j) ((xs @ [l1]) ! k)) l1
        (if i < j then take i xs @ range_of j k xs @ drop i (take j xs) @ drop k xs
         else take j xs @ drop k (take i xs) @ range_of j k xs @ drop i xs)" by blast
next
  show "splice_l h this pos other p p = h" by (simp add: splice_l_def)
next
  show "to_list 4 example_heap 10 = Some [1, 2, 3, 4]"
    using example_rings by (intro ring_to_list) simp_all
  show "to_list 4 example_heap 20 = Some [5, 6]"
    using example_rings by (intro ring_to_list) simp_all
  show "to_list 4 (splice_l example_heap 20 6 10 2 4) 10 = Some [1, 4]"
    using example_splice by (intro ring_to_list) simp_all
  show "to_list 4 (splice_l example_heap 20 6 10 2 4) 20 = Some [5, 2, 3, 6]"
    using example_splice by (intro ring_to_list) simp_all
qed

theorem splice_correctness_witness:
  "ring example_heap 10 [1, 2, 3, 4] \<and> ring example_heap 20 [5, 6]
   \<and> set (10 # [1, 2, 3, 4 :: addr]) \<inter> set (20 # [5, 6]) = {}
   \<and> ring (splice_l example_heap 10 1 20 6 20) 10 [6, 1, 2, 3, 4]
   \<and> ring (splice_l example_heap 10 1 20 6 20) 20 [5]
   \<and> ring (splice_l example_heap 10 1 10 2 3) 10 [2, 1, 3, 4]"
proof -
  have r: "ring example_heap 10 [1, 2, 3, 4]" "ring example_heap 20 [5, 6]"
    using example_rings by simp_all
  have d: "set (10 # [1, 2, 3, 4 :: addr]) \<inter> set (20 # [5, 6]) = {}" by simp
  from splice_correctness[of example_heap 10 "[1, 2, 3, 4]" 20 "[5, 6]" 0 1 2] r d
  show ?thesis by (simp add: range_of_def)
qed

section \<open>The ring invariant over sequences of operations\<close>

lemma nodes_Some: "ls l = Some xs \<Longrightarrow> nodes ls l = set (l # xs)"
  by (simp add: nodes_def)

lemma nodes_None: "ls l = None \<Longrightarrow> nodes ls l = {}"
  by (simp add: nodes_def)

lemma nodes_owned: "nodes ls l \<subseteq> owned ls"
  by (auto simp: owned_def)

lemma not_owned_None: "l \<notin> owned ls \<Longrightarrow> ls l = None"
  using nodes_owned[of ls l] by (cases "ls l") (auto simp: nodes_def)

lemma nodes_upd_same: "nodes (ls(l \<mapsto> xs)) l = set (l # xs)"
  by (simp add: nodes_def)

lemma nodes_upd_other: "l' \<noteq> l \<Longrightarrow> nodes (ls(l := v)) l' = nodes ls l'"
  by (simp add: nodes_def)

lemma rings_ok_disj: "rings_ok h ls \<Longrightarrow> l \<noteq> l' \<Longrightarrow> nodes ls l \<inter> nodes ls l' = {}"
  by (simp add: rings_ok_def)

lemma rings_ok_ring: "rings_ok h ls \<Longrightarrow> ls l = Some xs \<Longrightarrow> ring h l xs"
  by (simp add: rings_ok_def)

lemma rings_ok_upd1:
  assumes ok: "rings_ok h ls"
    and r: "ring h' l xs'"
    and sub: "set (l # xs') \<subseteq> nodes ls l \<union> E"
    and free: "E \<inter> owned ls \<subseteq> nodes ls l"
    and fr: "\<And>a. a \<notin> nodes ls l \<Longrightarrow> a \<notin> E \<Longrightarrow> h' a = h a"
  shows "rings_ok h' (ls(l \<mapsto> xs'))"
  unfolding rings_ok_def
proof (intro conjI allI impI)
  fix l' ys assume a: "(ls(l \<mapsto> xs')) l' = Some ys"
  show "ring h' l' ys"
  proof (cases "l' = l")
    case True
    with a r show ?thesis by simp
  next
    case False
    with a have l': "ls l' = Some ys" by simp
    with ok have r': "ring h l' ys" by (simp add: rings_ok_def)
    have "ring h' l' ys = ring h l' ys"
    proof (rule ring_frame)
      fix a assume "a \<in> set (l' # ys)"
      with l' have m: "a \<in> nodes ls l'" by (simp add: nodes_def)
      with rings_ok_disj[OF ok False] have "a \<notin> nodes ls l" by blast
      moreover from m nodes_owned[of ls l'] free \<open>a \<notin> nodes ls l\<close> have "a \<notin> E" by blast
      ultimately show "h' a = h a" by (rule fr)
    qed
    with r' show ?thesis by simp
  qed
next
  fix l1 l2 :: addr assume ne: "l1 \<noteq> l2"
  have dis: "nodes (ls(l \<mapsto> xs')) l \<inter> nodes ls m = {}" if "m \<noteq> l" for m
  proof -
    from that have "nodes ls l \<inter> nodes ls m = {}" by (intro rings_ok_disj[OF ok]) simp
    moreover from free nodes_owned[of ls m] this have "E \<inter> nodes ls m = {}" by blast
    ultimately show ?thesis using sub by (simp only: nodes_upd_same) blast
  qed
  show "nodes (ls(l \<mapsto> xs')) l1 \<inter> nodes (ls(l \<mapsto> xs')) l2 = {}"
  proof (cases "l1 = l")
    case True
    with ne dis[of l2] show ?thesis by (simp add: nodes_upd_other)
  next
    case False
    show ?thesis
    proof (cases "l2 = l")
      case True
      with ne dis[of l1] show ?thesis by (simp add: nodes_upd_other Int_commute)
    next
      case l2: False
      with False ne rings_ok_disj[OF ok ne] show ?thesis by (simp add: nodes_upd_other)
    qed
  qed
qed

lemma rings_ok_upd2:
  assumes ok: "rings_ok h ls" and ne: "l1 \<noteq> l2"
    and l1: "ls l1 = Some xs" and l2: "ls l2 = Some ys"
    and r1: "ring h' l1 xs'" and r2: "ring h' l2 ys'"
    and dj: "set (l1 # xs') \<inter> set (l2 # ys') = {}"
    and sub: "set (l1 # xs') \<union> set (l2 # ys') \<subseteq> set (l1 # xs) \<union> set (l2 # ys)"
    and fr: "\<And>a. a \<notin> set (l1 # xs) \<Longrightarrow> a \<notin> set (l2 # ys) \<Longrightarrow> h' a = h a"
  shows "rings_ok h' (ls(l1 \<mapsto> xs', l2 \<mapsto> ys'))"
  unfolding rings_ok_def
proof (intro conjI allI impI)
  let ?ls = "ls(l1 \<mapsto> xs', l2 \<mapsto> ys')"
  have n1: "nodes ls l1 = set (l1 # xs)" and n2: "nodes ls l2 = set (l2 # ys)"
    using l1 l2 by (simp_all add: nodes_def)
  fix l' zs assume a: "?ls l' = Some zs"
  show "ring h' l' zs"
  proof (cases "l' = l1 \<or> l' = l2")
    case True
    with a r1 r2 ne show ?thesis by auto
  next
    case False
    with a have l': "ls l' = Some zs" by simp
    have r': "ring h l' zs" by (rule rings_ok_ring[OF ok l'])
    have "ring h' l' zs = ring h l' zs"
    proof (rule ring_frame)
      fix a assume "a \<in> set (l' # zs)"
      with l' have m: "a \<in> nodes ls l'" by (simp add: nodes_def)
      from False have "l' \<noteq> l1" "l' \<noteq> l2" by simp_all
      from m rings_ok_disj[OF ok this(1)] rings_ok_disj[OF ok this(2)] n1 n2
      have "a \<notin> set (l1 # xs)" "a \<notin> set (l2 # ys)" by blast+
      then show "h' a = h a" by (rule fr)
    qed
    with r' show ?thesis by simp
  qed
next
  let ?ls = "ls(l1 \<mapsto> xs', l2 \<mapsto> ys')"
  have n1: "nodes ls l1 = set (l1 # xs)" and n2: "nodes ls l2 = set (l2 # ys)"
    using l1 l2 by (simp_all add: nodes_def)
  have m1: "nodes ?ls l1 = set (l1 # xs')" and m2: "nodes ?ls l2 = set (l2 # ys')"
    using ne by (simp_all add: nodes_def)
  have mo: "nodes ?ls m = nodes ls m" if "m \<noteq> l1" "m \<noteq> l2" for m
    using that by (simp add: nodes_def)
  have dis: "(nodes ?ls l1 \<union> nodes ?ls l2) \<inter> nodes ?ls m = {}" if "m \<noteq> l1" "m \<noteq> l2" for m
  proof -
    from that rings_ok_disj[OF ok, of l1 m] rings_ok_disj[OF ok, of l2 m]
    have "(nodes ls l1 \<union> nodes ls l2) \<inter> nodes ls m = {}" by blast
    with sub show ?thesis unfolding m1 m2 mo[OF that] n1 n2 by blast
  qed
  fix a b :: addr assume ab: "a \<noteq> b"
  consider (both) "a \<in> {l1, l2}" "b \<in> {l1, l2}" | (left) "a \<in> {l1, l2}" "b \<notin> {l1, l2}"
    | (right) "a \<notin> {l1, l2}" "b \<in> {l1, l2}" | (none) "a \<notin> {l1, l2}" "b \<notin> {l1, l2}" by blast
  then show "nodes ?ls a \<inter> nodes ?ls b = {}"
  proof cases
    case both
    with ab dj m1 m2 show ?thesis by (auto simp only: insert_iff empty_iff)
  next
    case left
    then have "b \<noteq> l1" "b \<noteq> l2" by simp_all
    from dis[OF this] left(1) show ?thesis by blast
  next
    case right
    then have "a \<noteq> l1" "a \<noteq> l2" by simp_all
    from dis[OF this] right(2) show ?thesis by blast
  next
    case none
    then have "a \<noteq> l1" "a \<noteq> l2" "b \<noteq> l1" "b \<noteq> l2" by simp_all
    with rings_ok_disj[OF ok ab] show ?thesis by (simp add: mo)
  qed
qed

lemma link_frame_ring:
  assumes "a \<notin> set (l # xs)" and "a \<noteq> e" and "p \<in> set (l # xs)" and "n \<in> set (l # xs)"
  shows "link h e p n a = h a"
proof -
  from assms have "a \<noteq> e" "a \<noteq> p" "a \<noteq> n" by auto
  then show ?thesis by (rule link_frame)
qed

lemma unlink_frame_ring:
  assumes "ring h l xs" and "t \<in> set (l # xs)" and "a \<notin> set (l # xs)"
  shows "unlink h t a = h a"
proof -
  from ring_nbrs(1,2)[OF assms(1,2)] assms(2,3) have "a \<noteq> t" "a \<noteq> prev (h t)" "a \<noteq> nxt (h t)"
    by auto
  then show ?thesis by (rule unlink_frame)
qed

lemma owned_notin: "e \<notin> owned ls \<Longrightarrow> ls l = Some xs \<Longrightarrow> e \<notin> set (l # xs)"
  using nodes_owned[of ls l] by (auto simp: nodes_def)

lemma step_construct:
  assumes ok: "rings_ok h ls" and l: "l \<notin> owned ls"
  shows "rings_ok (list_init h l) (ls(l \<mapsto> []))"
proof (rule rings_ok_upd1[OF ok, where E = "{l}"])
  show "ring (list_init h l) l []" by (simp add: ring_empty list_init_eq)
  show "set [l] \<subseteq> nodes ls l \<union> {l}" by simp
  show "{l} \<inter> owned ls \<subseteq> nodes ls l" using l by simp
  show "\<And>a. a \<notin> nodes ls l \<Longrightarrow> a \<notin> {l} \<Longrightarrow> list_init h l a = h a" by (simp add: list_init_eq)
qed

lemma step_push_back:
  assumes ok: "rings_ok h ls" and l: "ls l = Some xs" and e: "e \<notin> owned ls"
  shows "rings_ok (push_back h l e) (ls(l \<mapsto> xs @ [e]))"
proof (rule rings_ok_upd1[OF ok, where E = "{e}"])
  note r = rings_ok_ring[OF ok l] and n = nodes_Some[of ls l xs, OF l]
  show "ring (push_back h l e) l (xs @ [e])"
    by (rule push_back_ring[OF r owned_notin[OF e l]])
  show "set (l # xs @ [e]) \<subseteq> nodes ls l \<union> {e}" by (auto simp: n)
  show "{e} \<inter> owned ls \<subseteq> nodes ls l" using e by simp
  fix a assume "a \<notin> nodes ls l" "a \<notin> {e}"
  then have "a \<notin> set (l # xs)" "a \<noteq> e" by (simp_all add: n)
  moreover have "prev (h l) \<in> set (l # xs)" by (rule ring_nbrs(2)[OF r]) simp
  moreover have "l \<in> set (l # xs)" by simp
  ultimately show "push_back h l e a = h a" unfolding push_back_def by (rule link_frame_ring)
qed

lemma step_push_front:
  assumes ok: "rings_ok h ls" and l: "ls l = Some xs" and e: "e \<notin> owned ls"
  shows "rings_ok (push_front h l e) (ls(l \<mapsto> e # xs))"
proof (rule rings_ok_upd1[OF ok, where E = "{e}"])
  note r = rings_ok_ring[OF ok l] and n = nodes_Some[of ls l xs, OF l]
  show "ring (push_front h l e) l (e # xs)"
    by (rule push_front_ring[OF r owned_notin[OF e l]])
  show "set (l # e # xs) \<subseteq> nodes ls l \<union> {e}" by (auto simp: n)
  show "{e} \<inter> owned ls \<subseteq> nodes ls l" using e by simp
  fix a assume "a \<notin> nodes ls l" "a \<notin> {e}"
  then have "a \<notin> set (l # xs)" "a \<noteq> e" by (simp_all add: n)
  moreover have "l \<in> set (l # xs)" by simp
  moreover have "nxt (h l) \<in> set (l # xs)" by (rule ring_nbrs(1)[OF r]) simp
  ultimately show "push_front h l e a = h a" unfolding push_front_def by (rule link_frame_ring)
qed

lemma step_pop_back:
  assumes ok: "rings_ok h ls" and l: "ls l = Some xs" and ne: "xs \<noteq> []"
  shows "rings_ok (pop_back h l) (ls(l \<mapsto> butlast xs))"
proof (rule rings_ok_upd1[OF ok, where E = "{}"])
  note r = rings_ok_ring[OF ok l] and n = nodes_Some[of ls l xs, OF l]
  show "ring (pop_back h l) l (butlast xs)" by (rule pop_back_ring(1)[OF r ne])
  show "set (l # butlast xs) \<subseteq> nodes ls l \<union> {}" by (auto simp: n dest: in_set_butlastD)
  show "{} \<inter> owned ls \<subseteq> nodes ls l" by simp
  fix a assume "a \<notin> nodes ls l"
  then have a: "a \<notin> set (l # xs)" by (simp add: n)
  have "prev (h l) \<in> set (l # xs)" by (rule ring_nbrs(2)[OF r]) simp
  from unlink_frame_ring[OF r this a] show "pop_back h l a = h a" by (simp add: pop_back_def)
qed

lemma step_pop_front:
  assumes ok: "rings_ok h ls" and l: "ls l = Some xs" and ne: "xs \<noteq> []"
  shows "rings_ok (pop_front h l) (ls(l \<mapsto> tl xs))"
proof (rule rings_ok_upd1[OF ok, where E = "{}"])
  note r = rings_ok_ring[OF ok l] and n = nodes_Some[of ls l xs, OF l]
  show "ring (pop_front h l) l (tl xs)" by (rule pop_front_ring(1)[OF r ne])
  show "set (l # tl xs) \<subseteq> nodes ls l \<union> {}" using ne by (auto simp: n dest: list.set_sel(2))
  show "{} \<inter> owned ls \<subseteq> nodes ls l" by simp
  fix a assume "a \<notin> nodes ls l"
  then have a: "a \<notin> set (l # xs)" by (simp add: n)
  have "nxt (h l) \<in> set (l # xs)" by (rule ring_nbrs(1)[OF r]) simp
  from unlink_frame_ring[OF r this a] show "pop_front h l a = h a" by (simp add: pop_front_def)
qed

lemma position_in: "i \<le> length xs \<Longrightarrow> (xs @ [l]) ! i \<in> set (l # xs)"
  by (cases "i < length xs") (simp_all add: nth_append)

lemma step_insert:
  assumes ok: "rings_ok h ls" and l: "ls l = Some xs" and i: "i \<le> length xs" and e: "e \<notin> owned ls"
  shows "rings_ok (fst (insert_l h l ((xs @ [l]) ! i) e)) (ls(l \<mapsto> take i xs @ e # drop i xs))"
proof (rule rings_ok_upd1[OF ok, where E = "{e}"])
  note r = rings_ok_ring[OF ok l] and n = nodes_Some[of ls l xs, OF l]
  let ?pos = "(xs @ [l]) ! i"
  show "ring (fst (insert_l h l ?pos e)) l (take i xs @ e # drop i xs)"
    by (rule insert_ring_nth[OF r i owned_notin[OF e l]])
  show "set (l # take i xs @ e # drop i xs) \<subseteq> nodes ls l \<union> {e}"
    by (auto simp: n dest: in_set_takeD in_set_dropD)
  show "{e} \<inter> owned ls \<subseteq> nodes ls l" using e by simp
  fix a assume "a \<notin> nodes ls l" "a \<notin> {e}"
  then have "a \<notin> set (l # xs)" "a \<noteq> e" by (simp_all add: n)
  moreover have p: "?pos \<in> set (l # xs)" by (rule position_in[OF i])
  moreover have "prev (h ?pos) \<in> set (l # xs)" by (rule ring_nbrs(2)[OF r p])
  ultimately have "link h e (prev (h ?pos)) ?pos a = h a" by (intro link_frame_ring)
  then show "fst (insert_l h l ?pos e) a = h a" by (simp add: insert_l_def)
qed

lemma step_erase:
  assumes ok: "rings_ok h ls" and l: "ls l = Some xs" and i: "i < length xs"
  shows "rings_ok (fst (erase h l (xs ! i))) (ls(l \<mapsto> take i xs @ drop (Suc i) xs))"
proof (rule rings_ok_upd1[OF ok, where E = "{}"])
  note r = rings_ok_ring[OF ok l] and n = nodes_Some[of ls l xs, OF l]
  show "ring (fst (erase h l (xs ! i))) l (take i xs @ drop (Suc i) xs)"
    by (rule erase_ring_nth(1)[OF r i])
  show "set (l # take i xs @ drop (Suc i) xs) \<subseteq> nodes ls l \<union> {}"
    by (auto simp: n dest: in_set_takeD in_set_dropD)
  show "{} \<inter> owned ls \<subseteq> nodes ls l" by simp
  fix a assume "a \<notin> nodes ls l"
  then have a: "a \<notin> set (l # xs)" by (simp add: n)
  from i have p: "xs ! i \<in> set (l # xs)" by simp
  from ring_nbrs(3)[OF r p] have "fst (erase h l (xs ! i)) = unlink h (xs ! i)"
    by (simp add: erase_def iter_inc_def Let_def)
  with unlink_frame_ring[OF r p a] show "fst (erase h l (xs ! i)) a = h a" by simp
qed

lemma step_clear:
  assumes ok: "rings_ok h ls" and l: "ls l = Some xs"
  shows "rings_ok (clear h l) (ls(l \<mapsto> []))"
proof (rule rings_ok_upd1[OF ok, where E = "{}"])
  note n = nodes_Some[of ls l xs, OF l]
  show "ring (clear h l) l []" by (rule clear_ring)
  show "set [l] \<subseteq> nodes ls l \<union> {}" by (simp add: n)
  show "{} \<inter> owned ls \<subseteq> nodes ls l" by simp
  fix a assume "a \<notin> nodes ls l"
  then have "a \<noteq> l" by (auto simp: n)
  then show "clear h l a = h a" by (rule clear_frame)
qed

lemma range_subset: "set (range_of j k ys) \<subseteq> set ys"
  by (auto simp: range_of_def dest: in_set_takeD in_set_dropD)

lemma step_splice_other:
  assumes ok: "rings_ok h ls" and l: "ls l = Some xs" and l2: "ls l2 = Some ys" and ne: "l \<noteq> l2"
    and i: "i \<le> length xs" and jk: "j \<le> k" and k: "k \<le> length ys"
  shows "rings_ok (splice_l h l ((xs @ [l]) ! i) l2 ((ys @ [l2]) ! j) ((ys @ [l2]) ! k))
    (ls(l \<mapsto> take i xs @ range_of j k ys @ drop i xs, l2 \<mapsto> take j ys @ drop k ys))"
proof -
  note r1 = rings_ok_ring[OF ok l] and r2 = rings_ok_ring[OF ok l2]
  from rings_ok_disj[OF ok ne] l l2 have dj: "set (l # xs) \<inter> set (l2 # ys) = {}"
    by (simp add: nodes_def)
  note s = splice_ring_two[OF r1 r2 dj i jk k, where this = l and other = l2]
  from r2 have "distinct ys" and n2: "l2 \<notin> set ys" by (simp_all add: ring_def cyc_def)
  with range_split[OF jk, of ys, symmetric] have "distinct (take j ys @ range_of j k ys @ drop k ys)"
    by (simp only:)
  then have dR: "set (range_of j k ys) \<inter> set (take j ys @ drop k ys) = {}" by auto
  have sx: "set (take i xs @ range_of j k ys @ drop i xs) \<subseteq> set xs \<union> set (range_of j k ys)"
    by (auto dest: in_set_takeD in_set_dropD)
  have sy: "set (take j ys @ drop k ys) \<subseteq> set ys"
    by (auto dest: in_set_takeD in_set_dropD)
  show ?thesis
  proof (rule rings_ok_upd2[OF ok ne l l2 s(1) s(2)])
    show "set (l # take i xs @ range_of j k ys @ drop i xs) \<inter> set (l2 # take j ys @ drop k ys) = {}"
      using dj dR sx sy range_subset[of j k ys] ne n2 by (simp only: list.set(2)) blast
    show "set (l # take i xs @ range_of j k ys @ drop i xs) \<union> set (l2 # take j ys @ drop k ys)
        \<subseteq> set (l # xs) \<union> set (l2 # ys)"
      using sx sy range_subset[of j k ys] by (simp only: list.set(2)) blast
    show "\<And>a. a \<notin> set (l # xs) \<Longrightarrow> a \<notin> set (l2 # ys) \<Longrightarrow>
        splice_l h l ((xs @ [l]) ! i) l2 ((ys @ [l2]) ! j) ((ys @ [l2]) ! k) a = h a"
      by (rule s(3))
  qed
qed

lemma step_splice_same:
  assumes ok: "rings_ok h ls" and l: "ls l = Some xs"
    and i: "i \<le> length xs" and jk: "j \<le> k" and k: "k \<le> length xs" and out: "i < j \<or> k \<le> i"
  shows "rings_ok (splice_l h l ((xs @ [l]) ! i) l ((xs @ [l]) ! j) ((xs @ [l]) ! k))
    (ls(l \<mapsto> (if i < j then take i xs @ range_of j k xs @ drop i (take j xs) @ drop k xs
                 else take j xs @ drop k (take i xs) @ range_of j k xs @ drop i xs)))"
proof (rule rings_ok_upd1[OF ok, where E = "{}"])
  note r = rings_ok_ring[OF ok l] and n = nodes_Some[of ls l xs, OF l]
  note s = splice_ring_same[OF r i jk k out, where this = l and other = l]
  let ?h = "splice_l h l ((xs @ [l]) ! i) l ((xs @ [l]) ! j) ((xs @ [l]) ! k)"
  let ?zs = "if i < j then take i xs @ range_of j k xs @ drop i (take j xs) @ drop k xs
             else take j xs @ drop k (take i xs) @ range_of j k xs @ drop i xs"
  from s show "ring ?h l ?zs" by blast
  have "set ?zs \<subseteq> set xs"
    using range_subset[of j k xs] by (auto dest!: in_set_takeD in_set_dropD)
  then show "set (l # ?zs) \<subseteq> nodes ls l \<union> {}" unfolding n by auto
  show "{} \<inter> owned ls \<subseteq> nodes ls l" by simp
  fix a assume "a \<notin> nodes ls l"
  then have "a \<notin> set (l # xs)" by (simp add: n)
  with s show "?h a = h a" by blast
qed

lemma step_move_assign:
  assumes ok: "rings_ok h ls" and l: "ls l = Some xs" and l2: "ls l2 = Some ys"
  shows "rings_ok (move_assign h l l2) ((ls(l \<mapsto> ys))(l2 \<mapsto> []))"
proof (cases "l = l2")
  case True
  have "rings_ok (move_assign h l l) (ls(l \<mapsto> []))"
  proof (rule rings_ok_upd1[OF ok, where E = "{}"])
    note n = nodes_Some[of ls l xs, OF l]
    show "ring (move_assign h l l) l []" by (simp add: move_assign_self clear_ring)
    show "set [l] \<subseteq> nodes ls l \<union> {}" by (simp add: n)
    show "{} \<inter> owned ls \<subseteq> nodes ls l" by simp
    fix a assume "a \<notin> nodes ls l"
    then have "a \<noteq> l" by (auto simp: n)
    then show "move_assign h l l a = h a" by (simp add: move_assign_self clear_frame)
  qed
  with True show ?thesis by simp
next
  case False
  note r2 = rings_ok_ring[OF ok l2]
  from rings_ok_disj[OF ok False] l l2 have dj: "set (l # xs) \<inter> set (l2 # ys) = {}"
    by (simp add: nodes_def)
  then have nl: "l \<notin> set (l2 # ys)" by auto
  note m = move_assign_ring[OF r2 nl]
  from r2 have d2: "l2 \<notin> set ys" by (simp add: ring_def cyc_def)
  show ?thesis
  proof (rule rings_ok_upd2[OF ok False l l2 m(1) m(2)])
    show "set (l # ys) \<inter> set [l2] = {}" using False d2 by auto
    show "set (l # ys) \<union> set [l2] \<subseteq> set (l # xs) \<union> set (l2 # ys)" by auto
    fix a assume a: "a \<notin> set (l # xs)" "a \<notin> set (l2 # ys)"
    have "hd (ys @ [l2]) \<in> set (l2 # ys)" by (cases ys) simp_all
    moreover have "last (l2 # ys) \<in> set (l2 # ys)" by (rule last_in_set) simp
    ultimately have "a \<noteq> l" "a \<noteq> l2" "a \<noteq> hd (ys @ [l2])" "a \<noteq> last (l2 # ys)"
      using a by auto
    then show "move_assign h l l2 a = h a" by (rule m(3))
  qed
qed

lemma step_rings_ok:
  assumes "step (h, ls) (h', ls')" and ok: "rings_ok h ls"
  shows "rings_ok h' ls'"
  using assms(1)
proof (cases rule: step.cases)
  case C: (construct l)
  show ?thesis unfolding C(1,2) by (rule step_construct[OF ok C(3)])
next
  case C: (push_back l xs e)
  show ?thesis unfolding C(1,2) by (rule step_push_back[OF ok C(3) C(4)])
next
  case C: (push_front l xs e)
  show ?thesis unfolding C(1,2) by (rule step_push_front[OF ok C(3) C(4)])
next
  case C: (pop_back l xs)
  show ?thesis unfolding C(1,2) by (rule step_pop_back[OF ok C(3) C(4)])
next
  case C: (pop_front l xs)
  show ?thesis unfolding C(1,2) by (rule step_pop_front[OF ok C(3) C(4)])
next
  case C: (insert l xs i e)
  show ?thesis unfolding C(1,2) by (rule step_insert[OF ok C(3) C(4) C(5)])
next
  case C: (erase l xs i)
  show ?thesis unfolding C(1,2) by (rule step_erase[OF ok C(3) C(4)])
next
  case C: (splice_other l xs l2 ys i j k)
  show ?thesis unfolding C(1,2) by (rule step_splice_other[OF ok C(3) C(4) C(5) C(6) C(7) C(8)])
next
  case C: (splice_same l xs i j k)
  show ?thesis unfolding C(1,2) by (rule step_splice_same[OF ok C(3) C(4) C(5) C(6) C(7)])
next
  case C: (move_assign l xs l2 ys)
  show ?thesis unfolding C(1,2) by (rule step_move_assign[OF ok C(3) C(4)])
next
  case C: (clear l xs)
  show ?thesis unfolding C(1,2) by (rule step_clear[OF ok C(3)])
qed

lemma reachable_rings_ok: "reachable s \<Longrightarrow> rings_ok (fst s) (snd s)"
proof (induction rule: reachable.induct)
  case (init h)
  show ?case by (simp add: rings_ok_def nodes_def)
next
  case (next_state s s')
  then show ?case using step_rings_ok[of "fst s" "snd s" "fst s'" "snd s'"] by simp
qed

text \<open>
  C1 (ring invariant). Take any state reached from a store with no list by valid calls of
  construct, \<^verbatim>\<open>push_back\<close>, \<^verbatim>\<open>push_front\<close>, \<^verbatim>\<open>pop_back\<close>, \<^verbatim>\<open>pop_front\<close>, \<^verbatim>\<open>insert\<close>,
  \<^verbatim>\<open>erase\<close>, \<^verbatim>\<open>splice\<close>, move-assign and \<^verbatim>\<open>clear\<close>, and any node \<open>n\<close> in the ring of a
  constructed list \<open>l\<close>. Then \<^verbatim>\<open>n.next.prev == n\<close> and \<^verbatim>\<open>n.prev.next == n\<close>; both
  neighbours of \<open>n\<close> are in the same ring; following \<^verbatim>\<open>next\<close> once for every node of the ring
  leads back to \<open>n\<close>; the traversal from \<^verbatim>\<open>begin()\<close> reaches \<^verbatim>\<open>end()\<close> after exactly the
  list's elements; the nodes of the ring are distinct, and the only sentinel among them is
  \<open>l\<close>.
\<close>
theorem ring_invariant:
  assumes "reachable (h, ls)" and "ls l = Some xs" and "n \<in> set (l # xs)"
  shows "prev (h (nxt (h n))) = n \<and> nxt (h (prev (h n))) = n
    \<and> nxt (h n) \<in> set (l # xs) \<and> prev (h n) \<in> set (l # xs)
    \<and> (iter_inc h ^^ Suc (length xs)) n = n
    \<and> to_list (length xs) h l = Some xs
    \<and> distinct (l # xs)
    \<and> (\<forall>l' ys. ls l' = Some ys \<and> l' \<in> set (l # xs) \<longrightarrow> l' = l)"
proof -
  from reachable_rings_ok[OF assms(1)] have ok: "rings_ok h ls" by simp
  note r = rings_ok_ring[OF ok assms(2)]
  have one: "\<forall>l' ys. ls l' = Some ys \<and> l' \<in> set (l # xs) \<longrightarrow> l' = l"
  proof (intro allI impI, rule ccontr)
    fix l' ys assume a: "ls l' = Some ys \<and> l' \<in> set (l # xs)" and "l' \<noteq> l"
    from rings_ok_disj[OF ok this(2)] a assms(2) show False by (auto simp: nodes_def)
  qed
  from r have d: "distinct (l # xs)" by (auto simp: ring_def cyc_def)
  have t: "to_list (length xs) h l = Some xs" by (rule ring_to_list[OF r]) simp
  from ring_nbrs[OF r assms(3)] ring_circular[OF r assms(3)] t d one show ?thesis by blast
qed

theorem ring_invariant_witness:
  "reachable (push_back (push_back (list_init fresh_heap 0) 0 1) 0 2, [0 \<mapsto> [1, 2]])
   \<and> [0 \<mapsto> [1, 2 :: addr]] (0 :: addr) = Some [1, 2] \<and> (1 :: addr) \<in> set (0 # [1, 2])
   \<and> prev (push_back (push_back (list_init fresh_heap 0) 0 1) 0 2
        (nxt (push_back (push_back (list_init fresh_heap 0) 0 1) 0 2 1))) = 1
   \<and> nxt (push_back (push_back (list_init fresh_heap 0) 0 1) 0 2
        (prev (push_back (push_back (list_init fresh_heap 0) 0 1) 0 2 1))) = 1
   \<and> (iter_inc (push_back (push_back (list_init fresh_heap 0) 0 1) 0 2) ^^ 3) 1 = 1
   \<and> to_list 2 (push_back (push_back (list_init fresh_heap 0) 0 1) 0 2) 0 = Some [1, 2]"
proof -
  let ?h0 = "list_init fresh_heap 0"
  let ?h1 = "push_back ?h0 0 1"
  let ?h2 = "push_back ?h1 0 2"
  have "reachable (fresh_heap, Map.empty)" by (rule reachable.init)
  moreover have "step (fresh_heap, Map.empty) (?h0, [0 \<mapsto> []])"
    by (rule step.construct) (simp add: owned_def nodes_def)
  ultimately have r0: "reachable (?h0, [0 \<mapsto> []])" by (rule reachable.next_state)
  have "step (?h0, [0 \<mapsto> []]) (?h1, [0 \<mapsto> []](0 \<mapsto> [] @ [1]))"
    by (rule step.push_back) (simp_all add: owned_def nodes_def)
  with r0 have r1: "reachable (?h1, [0 \<mapsto> [1]])" by (simp add: reachable.next_state)
  have "step (?h1, [0 \<mapsto> [1]]) (?h2, [0 \<mapsto> [1]](0 \<mapsto> [1] @ [2]))"
    by (rule step.push_back) (simp_all add: owned_def nodes_def)
  with r1 have r2: "reachable (?h2, [0 \<mapsto> [1, 2]])" by (simp add: reachable.next_state)
  have l: "[0 \<mapsto> [1, 2 :: addr]] (0 :: addr) = Some [1, 2]" by simp
  have m: "(1 :: addr) \<in> set (0 # [1, 2])" by simp
  have len: "length [1, 2 :: addr] = 2" "Suc 2 = 3" by simp_all
  from ring_invariant[OF r2 l m] r2 l m show ?thesis unfolding len by blast
qed

end
